theory Spec2Isabelle
  imports Main "HOL-Library.AList"
begin

section \<open>Task declarations\<close>

text \<open>
  The engine of \<^verbatim>\<open>04_orchestration_engine.py\<close> receives its task set as a Python
  dictionary from task names to configuration dictionaries. A Python dictionary keeps
  its keys in insertion order, so the task set is an association list; a dictionary has
  no duplicate keys, which the theorems state as \<open>distinct (map fst tasks)\<close>. Every
  configuration entry is read with \<^verbatim>\<open>.get(key, default)\<close>, so every field is optional
  and the accessor supplies the default of the source.
\<close>

type_synonym task_name = string

record task_config =
  depends_on :: "task_name list option"
  critical :: "bool option"
  max_retries :: "int option"
  skip_on_condition :: "string option"
  task_type :: "string option"

type_synonym tasks = "(task_name \<times> task_config) list"

definition get_depends_on :: "task_config \<Rightarrow> task_name list" where
  "get_depends_on cfg = (case depends_on cfg of None \<Rightarrow> [] | Some ds \<Rightarrow> ds)"

definition get_critical :: "task_config \<Rightarrow> bool" where
  "get_critical cfg = (case critical cfg of None \<Rightarrow> True | Some b \<Rightarrow> b)"

definition get_max_retries :: "task_config \<Rightarrow> int" where
  "get_max_retries cfg = (case max_retries cfg of None \<Rightarrow> 2 | Some n \<Rightarrow> n)"

definition get_task_type :: "task_config \<Rightarrow> string" where
  "get_task_type cfg = (case task_type cfg of None \<Rightarrow> ''unknown'' | Some ty \<Rightarrow> ty)"

section \<open>Exceptions, results and the observable trace\<close>

text \<open>
  The two exception classes of the module, with the data their messages carry; the
  \<^verbatim>\<open>KeyError\<close> of a dictionary subscript on a missing key; the \<^verbatim>\<open>RecursionError\<close>
  that the interpreter raises when the nested calls of \<^verbatim>\<open>has_cycle\<close> go deeper than it
  allows; and the exception that a method of the audit logger raises, with its message.
\<close>

datatype exn =
    CircularDependency task_name
  | NonExistentDependency task_name task_name
  | CriticalBlocked task_name
  | CriticalFailed task_name
  | KeyError task_name
  | RecursionError
  | LoggerError string

definition is_TaskDependencyError :: "exn \<Rightarrow> bool" where
  "is_TaskDependencyError e =
     (case e of CircularDependency _ \<Rightarrow> True | NonExistentDependency _ _ \<Rightarrow> True | _ \<Rightarrow> False)"

definition is_CriticalTaskFailure :: "exn \<Rightarrow> bool" where
  "is_CriticalTaskFailure e =
     (case e of CriticalBlocked _ \<Rightarrow> True | CriticalFailed _ \<Rightarrow> True | _ \<Rightarrow> False)"

text \<open>
  The result dictionaries the engine stores per task. There are four shapes in the
  source: the success dictionary and the failure dictionary of
  \<^verbatim>\<open>execute_task_with_retries\<close> (both carry the attempt number), the failure
  dictionary returned after the \<^verbatim>\<open>while\<close> loop (no attempt number), and
  \<^verbatim>\<open>{"status": "SKIPPED"}\<close>.
\<close>

datatype status = SUCCESS | FAILED | SKIPPED

datatype task_result =
    Succeeded nat "int option"
  | FailedAttempt nat string
  | FailedAfterLoop
  | SkippedResult

fun status_of :: "task_result \<Rightarrow> status" where
  "status_of (Succeeded a r) = SUCCESS"
| "status_of (FailedAttempt a e) = FAILED"
| "status_of FailedAfterLoop = FAILED"
| "status_of SkippedResult = SKIPPED"

text \<open>
  Everything the engine does to its collaborators is appended to a trace, in order:
  the calls of the audit logger, the calls of \<^verbatim>\<open>time.sleep\<close> and the invocations of a
  task's executor. Printing and the wall-clock duration are left out.
\<close>

datatype event =
    LogTaskStart task_name string nat nat
  | LogTaskSuccess task_name int
  | LogTaskFailure task_name string
  | LogTaskSkip task_name "string option"
  | EndRun status nat nat nat "task_name list"
  | Sleep nat
  | ExecutorCall task_name

text \<open>
  An executor is a Python callable without arguments. It runs in the outside world
  \<open>'w\<close> (tables, files, its own counters), which it may change. It returns a
  dictionary, of which the engine reads the entry \<^verbatim>\<open>rows_processed\<close>, or it returns
  an object without a method \<^verbatim>\<open>get\<close> (such as \<^verbatim>\<open>None\<close>), or it raises an exception,
  of which the engine reads the type name.
\<close>

datatype exec_outcome = Returns "int option" | ReturnsNonDict | Raises string

type_synonym 'w executor = "'w \<Rightarrow> exec_outcome \<times> 'w"

text \<open>
  The audit logger is a collaborator handed to the constructor. Each of its methods
  acts on the outside world (the logger of this repository sends a statement to
  \<^verbatim>\<open>spark.sql\<close>) and either returns or raises; \<open>Some msg\<close> is the exception raised.
\<close>

type_synonym 'w audit_logger = "event \<Rightarrow> 'w \<Rightarrow> string option \<times> 'w"

text \<open>
  The state of one \<^verbatim>\<open>TaskExecutionEngine\<close> object together with the world around it:
  the attributes \<^verbatim>\<open>execution_order\<close> and \<^verbatim>\<open>task_results\<close> set up by
  \<^verbatim>\<open>__init__\<close>, the world and the trace.
\<close>

record 'w engine =
  world :: 'w
  trace :: "event list"
  execution_order :: "task_name \<rightharpoonup> nat"
  task_results :: "task_name \<rightharpoonup> task_result"

definition new_engine :: "'w \<Rightarrow> 'w engine" where
  "new_engine w = \<lparr>world = w, trace = [], execution_order = Map.empty, task_results = Map.empty\<rparr>"

definition emit :: "event \<Rightarrow> 'w engine \<Rightarrow> 'w engine" where
  "emit ev st = st\<lparr>trace := trace st @ [ev]\<rparr>"

text \<open>A call of a method of the audit logger: the call is traced, then it returns or raises.\<close>

definition audit :: "'w audit_logger \<Rightarrow> event \<Rightarrow> 'w engine \<Rightarrow> string option \<times> 'w engine" where
  "audit logger ev st =
     (case logger ev (world st) of (r, w') \<Rightarrow> (r, (emit ev st)\<lparr>world := w'\<rparr>))"

section \<open>Skip conditions\<close>

text \<open>
  \<^verbatim>\<open>should_skip_task\<close> sends one fixed query to \<^verbatim>\<open>spark.sql\<close> and reads
  \<^verbatim>\<open>result[0]['new_files']\<close>. The query either raises or yields a list of rows; a row
  maps column names to integers. The bare \<^verbatim>\<open>except:\<close> catches the exception of the
  query as well as the \<^verbatim>\<open>IndexError\<close> of an empty result and the error of a missing
  column.
\<close>

type_synonym row = "string \<rightharpoonup> int"

datatype sql_outcome = SqlRaises | SqlRows "row list"

type_synonym 'w spark = "'w \<Rightarrow> sql_outcome"

definition should_skip_task :: "'w spark \<Rightarrow> 'w \<Rightarrow> task_name \<Rightarrow> string option \<Rightarrow> bool" where
  "should_skip_task spark w task_nm skip_condition =
     (case skip_condition of
        None \<Rightarrow> False
      | Some c \<Rightarrow>
          if c = [] then False
          else if c = ''if_no_new_files'' then
            (case spark w of
               SqlRaises \<Rightarrow> False
             | SqlRows [] \<Rightarrow> False
             | SqlRows (r # rs) \<Rightarrow> (case r ''new_files'' of None \<Rightarrow> False | Some n \<Rightarrow> n = 0))
          else False)"

section \<open>Retries with exponential backoff\<close>

text \<open>
  The body of the \<^verbatim>\<open>try\<close> block of one attempt: \<^verbatim>\<open>log_task_start\<close>, the executor,
  \<^verbatim>\<open>result.get('rows_processed', 0)\<close> and \<^verbatim>\<open>log_task_success\<close>. Whatever is raised
  there is caught by \<^verbatim>\<open>except Exception\<close>: \<open>Inl\<close> is the caught exception, \<open>Inr\<close>
  the entry \<^verbatim>\<open>rows_processed\<close> of the result of a successful attempt. When
  \<^verbatim>\<open>log_task_start\<close> raises, the executor is not invoked in this attempt.
\<close>

definition run_attempt ::
  "'w audit_logger \<Rightarrow> task_name \<Rightarrow> task_config \<Rightarrow> 'w executor \<Rightarrow> nat \<Rightarrow> 'w engine
     \<Rightarrow> (string + int option) \<times> 'w engine" where
  "run_attempt logger task_nm cfg executor attempt st =
     (case audit logger (LogTaskStart task_nm (get_task_type cfg)
               (case execution_order st task_nm of None \<Rightarrow> 0 | Some i \<Rightarrow> i) attempt) st of
        (Some e, st1) \<Rightarrow> (Inl e, st1)
      | (None, st1) \<Rightarrow>
          (case executor (world st1) of
             (out, w') \<Rightarrow>
               (let st2 = (emit (ExecutorCall task_nm) st1)\<lparr>world := w'\<rparr>
                in case out of
                     Raises e \<Rightarrow> (Inl e, st2)
                   | ReturnsNonDict \<Rightarrow> (Inl ''AttributeError'', st2)
                   | Returns rows \<Rightarrow>
                       (case audit logger
                               (LogTaskSuccess task_nm (case rows of None \<Rightarrow> 0 | Some n \<Rightarrow> n)) st2 of
                          (Some e, st3) \<Rightarrow> (Inl e, st3)
                        | (None, st3) \<Rightarrow> (Inr rows, st3)))))"

text \<open>
  The \<^verbatim>\<open>while attempt <= max_retries\<close> loop of \<^verbatim>\<open>execute_task_with_retries\<close>. The
  counter \<open>attempt\<close> is the value at the loop head. A successful attempt returns; a
  failed one sleeps \<open>2 ^ (attempt - 1)\<close> seconds and loops, or, when it was the last
  one, calls \<^verbatim>\<open>log_task_failure\<close> and returns. \<^verbatim>\<open>log_task_failure\<close> is called in the
  handler, outside any \<^verbatim>\<open>try\<close>: what it raises leaves the function (\<open>Escaped\<close>).
\<close>

datatype 'w retry_result = Finished bool task_result "'w engine" | Escaped exn "'w engine"

function retry_loop ::
  "'w audit_logger \<Rightarrow> task_name \<Rightarrow> task_config \<Rightarrow> 'w executor \<Rightarrow> int \<Rightarrow> nat \<Rightarrow> 'w engine
     \<Rightarrow> 'w retry_result" where
  "retry_loop logger task_nm cfg executor maxr attempt st =
     (if int attempt \<le> maxr then
        (let attempt' = attempt + 1
         in case run_attempt logger task_nm cfg executor attempt' st of
              (Inr rows, st') \<Rightarrow> Finished True (Succeeded attempt' rows) st'
            | (Inl e, st') \<Rightarrow>
                if int attempt' < maxr + 1 then
                  retry_loop logger task_nm cfg executor maxr attempt' (emit (Sleep (2 ^ (attempt' - 1))) st')
                else
                  (case audit logger (LogTaskFailure task_nm e) st' of
                     (Some e', st'') \<Rightarrow> Escaped (LoggerError e') st''
                   | (None, st'') \<Rightarrow> Finished False (FailedAttempt attempt' e) st''))
      else Finished False FailedAfterLoop st)"
  by pat_completeness auto
termination
  by (relation "measure (\<lambda>(logger, task_nm, cfg, executor, maxr, attempt, st). nat (maxr + 1 - int attempt))")
     auto

declare retry_loop.simps [simp del]

definition execute_task_with_retries ::
  "'w audit_logger \<Rightarrow> task_name \<Rightarrow> task_config \<Rightarrow> 'w executor \<Rightarrow> int \<Rightarrow> 'w engine
     \<Rightarrow> 'w retry_result" where
  "execute_task_with_retries logger task_nm cfg executor maxr st =
     retry_loop logger task_nm cfg executor maxr 0 st"

section \<open>Dependency graph validation\<close>

text \<open>
  \<^verbatim>\<open>tasks.get(task, {}).get('depends_on', [])\<close>: a name that is not a key of the task set
  has no dependencies.
\<close>

definition deps_of :: "tasks \<Rightarrow> task_name \<Rightarrow> task_name list" where
  "deps_of tasks task = (case map_of tasks task of None \<Rightarrow> [] | Some cfg \<Rightarrow> get_depends_on cfg)"

text \<open>
  The nested function \<^verbatim>\<open>has_cycle\<close> is a recursive depth-first search that mutates
  the two sets \<^verbatim>\<open>visited\<close> and \<^verbatim>\<open>rec_stack\<close>. The model passes the pair of sets
  through; \<open>has_cycle_deps\<close> is the \<^verbatim>\<open>for dep in depends_on\<close> loop of the body. The
  recursion is as deep as the longest chain of dependencies it follows, and the
  interpreter allows only so many nested calls (its recursion limit less the frames
  already on the stack). The first argument is the number of nested calls of
  \<^verbatim>\<open>has_cycle\<close> still allowed; \<open>None\<close> is the \<^verbatim>\<open>RecursionError\<close> of a call beyond
  them. (\<^verbatim>\<open>rec_stack.remove(task)\<close> cannot raise: the task was added on entry, and a
  nested call removes only its own task.)
\<close>

type_synonym dfs_state = "task_name set \<times> task_name set"

fun has_cycle :: "nat \<Rightarrow> tasks \<Rightarrow> task_name \<Rightarrow> dfs_state \<Rightarrow> (bool \<times> dfs_state) option"
  and has_cycle_deps :: "nat \<Rightarrow> tasks \<Rightarrow> task_name list \<Rightarrow> dfs_state \<Rightarrow> (bool \<times> dfs_state) option"
  where
  "has_cycle 0 tasks task s = None"
| "has_cycle (Suc n) tasks task (visited, rec_stack) =
     (case has_cycle_deps n tasks (deps_of tasks task) (insert task visited, insert task rec_stack) of
        None \<Rightarrow> None
      | Some (True, s') \<Rightarrow> Some (True, s')
      | Some (False, (visited', rec_stack')) \<Rightarrow> Some (False, (visited', rec_stack' - {task})))"
| "has_cycle_deps n tasks [] s = Some (False, s)"
| "has_cycle_deps n tasks (dep # deps) (visited, rec_stack) =
     (if dep \<notin> visited then
        (case has_cycle n tasks dep (visited, rec_stack) of
           None \<Rightarrow> None
         | Some (True, s') \<Rightarrow> Some (True, s')
         | Some (False, s') \<Rightarrow> has_cycle_deps n tasks deps s')
      else if dep \<in> rec_stack then Some (True, (visited, rec_stack))
      else has_cycle_deps n tasks deps (visited, rec_stack))"

text \<open>
  The loop \<^verbatim>\<open>for task in all_tasks\<close> runs over a Python set, whose iteration order
  is not fixed by the language; the order is the list \<open>iter_order\<close>, an argument.
\<close>

fun check_cycles :: "nat \<Rightarrow> tasks \<Rightarrow> task_name list \<Rightarrow> dfs_state \<Rightarrow> (exn + dfs_state) option" where
  "check_cycles n tasks [] s = Some (Inr s)"
| "check_cycles n tasks (task # rest) (visited, rec_stack) =
     (if task \<notin> visited then
        (case has_cycle n tasks task (visited, rec_stack) of
           None \<Rightarrow> None
         | Some (True, s') \<Rightarrow> Some (Inl (CircularDependency task))
         | Some (False, s') \<Rightarrow> check_cycles n tasks rest s')
      else check_cycles n tasks rest (visited, rec_stack))"

fun first_missing :: "task_name set \<Rightarrow> task_name \<Rightarrow> task_name list \<Rightarrow> exn option" where
  "first_missing all_tasks task [] = None"
| "first_missing all_tasks task (dep # deps) =
     (if dep \<notin> all_tasks then Some (NonExistentDependency task dep)
      else first_missing all_tasks task deps)"

fun check_existence :: "task_name set \<Rightarrow> tasks \<Rightarrow> exn option" where
  "check_existence all_tasks [] = None"
| "check_existence all_tasks ((task, config) # rest) =
     (case first_missing all_tasks task (get_depends_on config) of
        Some e \<Rightarrow> Some e
      | None \<Rightarrow> check_existence all_tasks rest)"

text \<open>
  \<open>frames\<close> is the number of nested calls of \<^verbatim>\<open>has_cycle\<close> that the interpreter allows
  when \<^verbatim>\<open>validate_dependency_graph\<close> is called.
\<close>

definition validate_dependency_graph :: "nat \<Rightarrow> task_name list \<Rightarrow> tasks \<Rightarrow> exn + bool" where
  "validate_dependency_graph frames iter_order tasks =
     (let all_tasks = set (map fst tasks) in
      case check_cycles frames tasks iter_order ({}, {}) of
        None \<Rightarrow> Inl RecursionError
      | Some (Inl e) \<Rightarrow> Inl e
      | Some (Inr s) \<Rightarrow>
          (case check_existence all_tasks tasks of
             Some e \<Rightarrow> Inl e
           | None \<Rightarrow> Inr True))"

section \<open>Topological order\<close>

text \<open>
  The dictionaries \<^verbatim>\<open>in_degree\<close> and \<^verbatim>\<open>adjacency\<close> are association lists, read
  with \<open>map_of\<close> and written with \<open>AList.update\<close>; a subscript on a missing key is
  the \<^verbatim>\<open>KeyError\<close> of Python.
\<close>

type_synonym in_degree = "(task_name \<times> int) list"
type_synonym adjacency = "(task_name \<times> task_name list) list"

definition init_in_degree :: "tasks \<Rightarrow> in_degree" where
  "init_in_degree tasks = map (\<lambda>(task, config). (task, 0)) tasks"

definition init_adjacency :: "tasks \<Rightarrow> adjacency" where
  "init_adjacency tasks = map (\<lambda>(task, config). (task, [])) tasks"

fun add_edges :: "task_name \<Rightarrow> task_name list \<Rightarrow> in_degree \<times> adjacency \<Rightarrow> exn + in_degree \<times> adjacency" where
  "add_edges task [] g = Inr g"
| "add_edges task (dep # deps) (ind, adj) =
     (case map_of adj dep of
        None \<Rightarrow> Inl (KeyError dep)
      | Some nbs \<Rightarrow>
          (case map_of ind task of
             None \<Rightarrow> Inl (KeyError task)
           | Some d \<Rightarrow>
               add_edges task deps (AList.update task (d + 1) ind, AList.update dep (nbs @ [task]) adj)))"

fun build_graph :: "tasks \<Rightarrow> in_degree \<times> adjacency \<Rightarrow> exn + in_degree \<times> adjacency" where
  "build_graph [] g = Inr g"
| "build_graph ((task, config) # rest) g =
     (case add_edges task (get_depends_on config) g of
        Inl e \<Rightarrow> Inl e
      | Inr g' \<Rightarrow> build_graph rest g')"

fun initial_queue :: "tasks \<Rightarrow> in_degree \<Rightarrow> exn + task_name list" where
  "initial_queue [] ind = Inr []"
| "initial_queue ((task, config) # rest) ind =
     (case map_of ind task of
        None \<Rightarrow> Inl (KeyError task)
      | Some d \<Rightarrow>
          (case initial_queue rest ind of
             Inl e \<Rightarrow> Inl e
           | Inr q \<Rightarrow> Inr (if d = 0 then task # q else q)))"

text \<open>The loop \<^verbatim>\<open>for neighbor in adjacency[task]\<close> of Kahn's algorithm.\<close>

fun relax :: "task_name list \<Rightarrow> in_degree \<Rightarrow> task_name list \<Rightarrow> exn + in_degree \<times> task_name list" where
  "relax [] ind queue = Inr (ind, queue)"
| "relax (nb # nbs) ind queue =
     (case map_of ind nb of
        None \<Rightarrow> Inl (KeyError nb)
      | Some d \<Rightarrow>
          (let ind' = AList.update nb (d - 1) ind
           in if d - 1 = 0 then relax nbs ind' (queue @ [nb]) else relax nbs ind' queue))"

definition pos_count :: "in_degree \<Rightarrow> nat" where
  "pos_count ind = length (filter (\<lambda>(k, d). 0 < d) ind)"

lemma pos_count_update:
  "map_of ind k = Some d \<Longrightarrow>
     pos_count (AList.update k v ind) + (if 0 < d then 1 else 0) = pos_count ind + (if 0 < v then 1 else 0)"
  by (induction ind) (auto simp: pos_count_def)

lemma relax_measure:
  "relax nbs ind queue = Inr (ind', queue') \<Longrightarrow>
     length queue' + pos_count ind' \<le> length queue + pos_count ind"
proof (induction nbs arbitrary: ind queue)
  case Nil
  then show ?case by simp
next
  case (Cons nb nbs)
  from Cons.prems obtain d where d: "map_of ind nb = Some d"
    by (auto split: option.splits)
  show ?case
  proof (cases "d - 1 = 0")
    case True
    with Cons.prems d have "relax nbs (AList.update nb (d - 1) ind) (queue @ [nb]) = Inr (ind', queue')"
      by simp
    from Cons.IH[OF this] pos_count_update[OF d, of "d - 1"] True show ?thesis
      by (simp split: if_splits)
  next
    case False
    with Cons.prems d have "relax nbs (AList.update nb (d - 1) ind) queue = Inr (ind', queue')"
      by simp
    from Cons.IH[OF this] pos_count_update[OF d, of "d - 1"] False show ?thesis
      by (simp split: if_splits)
  qed
qed

text \<open>
  The loop \<^verbatim>\<open>while queue\<close>: \<^verbatim>\<open>queue.pop(0)\<close>, \<^verbatim>\<open>result.append(task)\<close>, then the
  loop over the neighbours. It terminates on every state: an iteration removes one
  name from the queue, and a name is appended only when its counter goes from one to
  zero.
\<close>

function kahn_loop :: "adjacency \<Rightarrow> in_degree \<Rightarrow> task_name list \<Rightarrow> task_name list \<Rightarrow> exn + task_name list" where
  "kahn_loop adj ind [] result = Inr result"
| "kahn_loop adj ind (task # queue) result =
     (case map_of adj task of
        None \<Rightarrow> Inl (KeyError task)
      | Some nbs \<Rightarrow>
          (case relax nbs ind queue of
             Inl e \<Rightarrow> Inl e
           | Inr (ind', queue') \<Rightarrow> kahn_loop adj ind' queue' (result @ [task])))"
  by pat_completeness auto
termination
proof (relation "measure (\<lambda>(adj, ind, queue, result). length queue + pos_count ind)")
  show "wf (measure (\<lambda>(adj, ind, queue, result). length queue + pos_count ind))" by simp
next
  fix adj :: adjacency and ind :: in_degree and task :: task_name and queue result :: "task_name list"
    and nbs x2 ind' queue'
  assume "relax nbs ind queue = Inr x2" and "(ind', queue') = x2"
  then have "relax nbs ind queue = Inr (ind', queue')" by simp
  from relax_measure[OF this]
  show "((adj, ind', queue', result @ [task]), (adj, ind, task # queue, result))
          \<in> measure (\<lambda>(adj, ind, queue, result). length queue + pos_count ind)"
    by simp
qed

definition kahn_order :: "tasks \<Rightarrow> exn + task_name list" where
  "kahn_order tasks =
     (case build_graph tasks (init_in_degree tasks, init_adjacency tasks) of
        Inl e \<Rightarrow> Inl e
      | Inr (ind, adj) \<Rightarrow>
          (case initial_queue tasks ind of
             Inl e \<Rightarrow> Inl e
           | Inr queue \<Rightarrow> kahn_loop adj ind queue []))"

text \<open>\<^verbatim>\<open>for idx, task in enumerate(result, 1): self.execution_order[task] = idx\<close>\<close>

fun record_order :: "nat \<Rightarrow> task_name list \<Rightarrow> (task_name \<rightharpoonup> nat) \<Rightarrow> (task_name \<rightharpoonup> nat)" where
  "record_order idx [] eo = eo"
| "record_order idx (task # rest) eo = record_order (Suc idx) rest (eo(task \<mapsto> idx))"

definition topological_sort ::
  "nat \<Rightarrow> task_name list \<Rightarrow> tasks \<Rightarrow> 'w engine \<Rightarrow> exn + task_name list \<times> 'w engine" where
  "topological_sort frames iter_order tasks st =
     (case validate_dependency_graph frames iter_order tasks of
        Inl e \<Rightarrow> Inl e
      | Inr ok \<Rightarrow>
          (case kahn_order tasks of
             Inl e \<Rightarrow> Inl e
           | Inr result \<Rightarrow>
               Inr (result, st\<lparr>execution_order := record_order 1 result (execution_order st)\<rparr>)))"

section \<open>Running the pipeline\<close>

text \<open>The dictionary \<^verbatim>\<open>summary\<close> that \<^verbatim>\<open>execute_pipeline\<close> builds for one run.\<close>

record summary =
  total_tasks :: nat
  successful_tasks :: nat
  failed_tasks :: nat
  skipped_tasks :: nat
  summary_results :: "task_name \<rightharpoonup> task_result"
  failed_tasks_list :: "task_name list"

definition initial_summary :: "task_name list \<Rightarrow> summary" where
  "initial_summary execution_plan =
     \<lparr>total_tasks = length execution_plan, successful_tasks = 0, failed_tasks = 0,
      skipped_tasks = 0, summary_results = Map.empty, failed_tasks_list = []\<rparr>"

text \<open>
  The dependency check: \<^verbatim>\<open>self.task_results.get(dep, {}).get('status') != 'SUCCESS'\<close>
  for the first dependency that has it clears \<^verbatim>\<open>can_execute\<close> and leaves the loop.
\<close>

fun can_execute :: "(task_name \<rightharpoonup> task_result) \<Rightarrow> task_name list \<Rightarrow> bool" where
  "can_execute results [] = True"
| "can_execute results (dep # deps) =
     (if map_option status_of (results dep) \<noteq> Some SUCCESS then False
      else can_execute results deps)"

text \<open>
  One iteration of \<^verbatim>\<open>for task_name in execution_plan\<close> either goes on to the next
  task or raises. \<open>Abort\<close> keeps the summary and the engine as they are when the
  exception is raised; the summary is a local variable of \<^verbatim>\<open>execute_pipeline\<close>.
\<close>

datatype 'w step = Continue summary "'w engine" | Abort exn summary "'w engine"

definition count_failed :: "task_name \<Rightarrow> summary \<Rightarrow> summary" where
  "count_failed task_nm summ =
     summ\<lparr>failed_tasks := failed_tasks summ + 1,
          failed_tasks_list := failed_tasks_list summ @ [task_nm]\<rparr>"

text \<open>The part of the loop body after the skip check: dependency check, then execution.\<close>

definition check_and_execute ::
  "'w audit_logger \<Rightarrow> (task_name \<rightharpoonup> 'w executor) \<Rightarrow> task_name \<Rightarrow> task_config \<Rightarrow> summary
     \<Rightarrow> 'w engine \<Rightarrow> 'w step" where
  "check_and_execute logger executors task_nm cfg summ st =
     (if \<not> can_execute (task_results st) (get_depends_on cfg) then
        (if get_critical cfg then Abort (CriticalBlocked task_nm) (count_failed task_nm summ) st
         else
           (case audit logger (LogTaskSkip task_nm (Some ''dependency_failed'')) st of
              (Some e, st') \<Rightarrow> Abort (LoggerError e) summ st'
            | (None, st') \<Rightarrow> Continue (summ\<lparr>skipped_tasks := skipped_tasks summ + 1\<rparr>) st'))
      else
        (case executors task_nm of
           None \<Rightarrow> Continue (count_failed task_nm summ) st
         | Some executor \<Rightarrow>
             (case execute_task_with_retries logger task_nm cfg executor (get_max_retries cfg) st of
                Escaped e st' \<Rightarrow> Abort e summ st'
              | Finished success result st' \<Rightarrow>
                  (let st'' = st'\<lparr>task_results := (task_results st')(task_nm \<mapsto> result)\<rparr>;
                       summ' = summ\<lparr>summary_results := (summary_results summ)(task_nm \<mapsto> result)\<rparr>
                   in if success then Continue (summ'\<lparr>successful_tasks := successful_tasks summ' + 1\<rparr>) st''
                      else if get_critical cfg then Abort (CriticalFailed task_nm) (count_failed task_nm summ') st''
                      else Continue (count_failed task_nm summ') st''))))"

definition process_task ::
  "'w audit_logger \<Rightarrow> 'w spark \<Rightarrow> tasks \<Rightarrow> (task_name \<rightharpoonup> 'w executor) \<Rightarrow> task_name \<Rightarrow> summary
     \<Rightarrow> 'w engine \<Rightarrow> 'w step" where
  "process_task logger spark tasks executors task_nm summ st =
     (case map_of tasks task_nm of
        None \<Rightarrow> Abort (KeyError task_nm) summ st
      | Some cfg \<Rightarrow>
          if should_skip_task spark (world st) task_nm (skip_on_condition cfg) then
            (case audit logger (LogTaskSkip task_nm (skip_on_condition cfg)) st of
               (Some e, st') \<Rightarrow> Abort (LoggerError e) summ st'
             | (None, st') \<Rightarrow>
                 Continue (summ\<lparr>skipped_tasks := skipped_tasks summ + 1\<rparr>)
                   (st'\<lparr>task_results := (task_results st')(task_nm \<mapsto> SkippedResult)\<rparr>))
          else check_and_execute logger executors task_nm cfg summ st)"

fun run_tasks ::
  "'w audit_logger \<Rightarrow> 'w spark \<Rightarrow> tasks \<Rightarrow> (task_name \<rightharpoonup> 'w executor) \<Rightarrow> task_name list \<Rightarrow> summary
     \<Rightarrow> 'w engine \<Rightarrow> 'w step" where
  "run_tasks logger spark tasks executors [] summ st = Continue summ st"
| "run_tasks logger spark tasks executors (task_nm # rest) summ st =
     (case process_task logger spark tasks executors task_nm summ st of
        Abort e summ' st' \<Rightarrow> Abort e summ' st'
      | Continue summ' st' \<Rightarrow> run_tasks logger spark tasks executors rest summ' st')"

text \<open>
  \<^verbatim>\<open>execute_pipeline\<close> returns a pair of a flag and a dictionary, which is either
  \<^verbatim>\<open>{"error": ...}\<close> or the summary, or it raises. Only \<^verbatim>\<open>TaskDependencyError\<close> is
  caught, and only around \<^verbatim>\<open>topological_sort\<close>; there is no handler around the loop
  over the plan, nor around \<^verbatim>\<open>end_run\<close>.
\<close>

datatype ret = ErrorDict exn | Summary summary

datatype 'w outcome = Returned bool ret "'w engine" | Raised exn "'w engine"

definition finish_run :: "'w audit_logger \<Rightarrow> summary \<Rightarrow> 'w engine \<Rightarrow> 'w outcome" where
  "finish_run logger summ st =
     (let overall_success = (failed_tasks summ = 0);
          overall_status = (if overall_success then SUCCESS else FAILED)
      in case audit logger (EndRun overall_status (successful_tasks summ) (failed_tasks summ)
                              (skipped_tasks summ) (failed_tasks_list summ)) st of
           (Some e, st') \<Rightarrow> Raised (LoggerError e) st'
         | (None, st') \<Rightarrow> Returned overall_success (Summary summ) st')"

definition execute_pipeline ::
  "nat \<Rightarrow> 'w audit_logger \<Rightarrow> task_name list \<Rightarrow> 'w spark \<Rightarrow> tasks \<Rightarrow> (task_name \<rightharpoonup> 'w executor)
     \<Rightarrow> 'w engine \<Rightarrow> 'w outcome" where
  "execute_pipeline frames logger iter_order spark tasks executors st =
     (case topological_sort frames iter_order tasks st of
        Inl e \<Rightarrow>
          if is_TaskDependencyError e then Returned False (ErrorDict e) st
          else Raised e st
      | Inr (execution_plan, st0) \<Rightarrow>
          (case run_tasks logger spark tasks executors execution_plan (initial_summary execution_plan) st0 of
             Abort e summ st' \<Rightarrow> Raised e st'
           | Continue summ st' \<Rightarrow> finish_run logger summ st'))"

section \<open>Vocabulary of the properties\<close>

text \<open>
  The executor invocations and the sleeps of a piece of trace, in their order, and the
  schedule of a task that fails on every attempt under \<open>n\<close> retries: after the
  attempt numbered \<open>i + 1\<close> the engine sleeps \<open>2 ^ i\<close> seconds, and nothing follows
  the last invocation. The schedule is given from attempt \<open>a + 1\<close> on.
\<close>

definition calls_and_sleeps :: "event list \<Rightarrow> event list" where
  "calls_and_sleeps evs =
     filter (\<lambda>ev. case ev of Sleep _ \<Rightarrow> True | ExecutorCall _ \<Rightarrow> True | _ \<Rightarrow> False) evs"

fun sleeps :: "event list \<Rightarrow> nat list" where
  "sleeps [] = []"
| "sleeps (Sleep k # evs) = k # sleeps evs"
| "sleeps (ev # evs) = sleeps evs"

fun executor_calls :: "event list \<Rightarrow> nat" where
  "executor_calls [] = 0"
| "executor_calls (ExecutorCall t # evs) = Suc (executor_calls evs)"
| "executor_calls (ev # evs) = executor_calls evs"

definition backoff_schedule :: "task_name \<Rightarrow> nat \<Rightarrow> nat \<Rightarrow> event list" where
  "backoff_schedule task_nm a n =
     concat (map (\<lambda>i. [ExecutorCall task_nm, Sleep (2 ^ i)]) [a..<n]) @ [ExecutorCall task_nm]"

definition always_raises :: "'w executor \<Rightarrow> bool" where
  "always_raises executor = (\<forall>w. \<exists>e w'. executor w = (Raises e, w'))"


text \<open>
  Every method of the audit logger returns normally; and the world after one attempt in
  which \<^verbatim>\<open>log_task_start\<close> has returned and the executor has been invoked once.
\<close>

definition logger_returns :: "'w audit_logger \<Rightarrow> bool" where
  "logger_returns logger = (\<forall>ev w. fst (logger ev w) = None)"

definition attempt_effect ::
  "'w audit_logger \<Rightarrow> 'w executor \<Rightarrow> task_name \<Rightarrow> task_config \<Rightarrow> nat \<Rightarrow> nat \<Rightarrow> 'w \<Rightarrow> 'w" where
  "attempt_effect logger executor task_nm cfg ord i w =
     snd (executor (snd (logger (LogTaskStart task_nm (get_task_type cfg) ord i) w)))"

definition recorded_order :: "'w engine \<Rightarrow> task_name \<Rightarrow> nat" where
  "recorded_order st task_nm = (case execution_order st task_nm of None \<Rightarrow> 0 | Some i \<Rightarrow> i)"

section \<open>The retry loop\<close>

lemma sleeps_calls_and_sleeps: "sleeps (calls_and_sleeps evs) = sleeps evs"
  by (induction evs rule: sleeps.induct) (simp_all add: calls_and_sleeps_def)

lemma executor_calls_calls_and_sleeps: "executor_calls (calls_and_sleeps evs) = executor_calls evs"
  by (induction evs rule: executor_calls.induct) (simp_all add: calls_and_sleeps_def)

lemma sleeps_backoff_schedule: "sleeps (backoff_schedule task_nm a n) = map (\<lambda>i. 2 ^ i) [a..<n]"
proof -
  have "sleeps (concat (map (\<lambda>i. [ExecutorCall task_nm, Sleep (2 ^ i)]) is) @ [ExecutorCall task_nm])
          = map (\<lambda>i. 2 ^ i) is" for "is" :: "nat list"
    by (induction "is") simp_all
  then show ?thesis by (simp add: backoff_schedule_def)
qed

lemma executor_calls_backoff_schedule:
  "executor_calls (backoff_schedule task_nm a n) = Suc (n - a)"
proof -
  have "executor_calls (concat (map (\<lambda>i. [ExecutorCall task_nm, Sleep (2 ^ i)]) is) @ [ExecutorCall task_nm])
          = Suc (length is)" for "is" :: "nat list"
    by (induction "is") simp_all
  then show ?thesis by (simp add: backoff_schedule_def)
qed

lemma audit_returns:
  assumes "logger_returns logger"
  shows "audit logger ev st = (None, (emit ev st)\<lparr>world := snd (logger ev (world st))\<rparr>)"
proof -
  obtain r w' where l: "logger ev (world st) = (r, w')" by (cases "logger ev (world st)")
  with assms have "r = None" unfolding logger_returns_def by (metis fst_conv)
  with l show ?thesis by (simp add: audit_def)
qed

lemma run_attempt_raises:
  assumes "logger_returns logger"
    and "executor (snd (logger (LogTaskStart task_nm (get_task_type cfg) (recorded_order st task_nm) i)
                          (world st))) = (Raises e, w')"
  shows "run_attempt logger task_nm cfg executor i st =
           (Inl e, st\<lparr>world := w',
                       trace := trace st @ [LogTaskStart task_nm (get_task_type cfg)
                                              (recorded_order st task_nm) i, ExecutorCall task_nm]\<rparr>)"
  using assms(2)
  by (simp add: run_attempt_def audit_returns[OF assms(1)] emit_def recorded_order_def)

lemma fold_constant_step: "fold (\<lambda>i. g) xs w = (g ^^ length xs) w"
  by (induction xs arbitrary: w) (simp_all add: funpow_swap1)

lemma retry_loop_always_raises:
  assumes "always_raises executor" and "logger_returns logger" and "attempt \<le> n"
  shows "\<exists>e new st'. retry_loop logger task_nm cfg executor (int n) attempt st
                          = Finished False (FailedAttempt (Suc n) e) st'
           \<and> trace st' = trace st @ new
           \<and> calls_and_sleeps new = backoff_schedule task_nm attempt n
           \<and> last new = LogTaskFailure task_nm e
           \<and> world st' = snd (logger (LogTaskFailure task_nm e)
                  (fold (attempt_effect logger executor task_nm cfg (recorded_order st task_nm))
                     (map Suc [attempt..<Suc n]) (world st)))"
  using assms(3)
proof (induction "n - attempt" arbitrary: attempt st)
  case 0
  then have [simp]: "attempt = n" by simp
  let ?start = "LogTaskStart task_nm (get_task_type cfg) (recorded_order st task_nm) (Suc n)"
  obtain e w' where ex: "executor (snd (logger ?start (world st))) = (Raises e, w')"
    using assms(1) unfolding always_raises_def by blast
  have ra: "run_attempt logger task_nm cfg executor (Suc n) st =
           (Inl e, st\<lparr>world := w', trace := trace st @ [?start, ExecutorCall task_nm]\<rparr>)"
    by (rule run_attempt_raises[where executor = executor and logger = logger and st = st,
        OF assms(2) ex])
  show ?case
    by (subst retry_loop.simps)
       (simp add: Let_def ra audit_returns[OF assms(2)] emit_def calls_and_sleeps_def
          backoff_schedule_def attempt_effect_def ex)
next
  case (Suc k)
  then have lt: "attempt < n" and k: "k = n - Suc attempt" and le: "Suc attempt \<le> n" by simp_all
  let ?start = "LogTaskStart task_nm (get_task_type cfg) (recorded_order st task_nm) (Suc attempt)"
  obtain e w' where ex: "executor (snd (logger ?start (world st))) = (Raises e, w')"
    using assms(1) unfolding always_raises_def by blast
  define st3 where "st3 = st\<lparr>world := w',
     trace := trace st @ [?start, ExecutorCall task_nm, Sleep (2 ^ attempt)]\<rparr>"
  have ra: "run_attempt logger task_nm cfg executor (Suc attempt) st =
           (Inl e, st\<lparr>world := w', trace := trace st @ [?start, ExecutorCall task_nm]\<rparr>)"
    by (rule run_attempt_raises[where executor = executor and logger = logger and st = st,
        OF assms(2) ex])
  have ro: "recorded_order st3 task_nm = recorded_order st task_nm"
    by (simp add: st3_def recorded_order_def)
  from Suc.hyps(1)[OF k le, of st3] obtain e' new st' where
    r: "retry_loop logger task_nm cfg executor (int n) (Suc attempt) st3
          = Finished False (FailedAttempt (Suc n) e') st'"
    and t: "trace st' = trace st3 @ new"
    and c: "calls_and_sleeps new = backoff_schedule task_nm (Suc attempt) n"
    and l: "last new = LogTaskFailure task_nm e'"
    and w: "world st' = snd (logger (LogTaskFailure task_nm e')
                  (fold (attempt_effect logger executor task_nm cfg (recorded_order st task_nm))
                     (map Suc [Suc attempt..<Suc n]) (world st3)))"
    unfolding ro by blast
  have step: "retry_loop logger task_nm cfg executor (int n) attempt st
     = retry_loop logger task_nm cfg executor (int n) (Suc attempt) st3"
    using lt by (subst retry_loop.simps) (simp add: Let_def ra emit_def st3_def)
  have ne: "new \<noteq> []" using c by (auto simp: backoff_schedule_def calls_and_sleeps_def)
  have tr3: "trace st3 = trace st @ [?start, ExecutorCall task_nm, Sleep (2 ^ attempt)]"
    by (simp add: st3_def)
  have w3: "world st3 = attempt_effect logger executor task_nm cfg (recorded_order st task_nm)
                          (Suc attempt) (world st)"
    by (simp add: st3_def attempt_effect_def ex)
  have up: "[attempt..<n] = attempt # [Suc attempt..<n]" using lt by (simp add: upt_conv_Cons)
  have up': "[attempt..<Suc n] = attempt # [Suc attempt..<Suc n]"
    using lt by (simp add: upt_conv_Cons)
  have wf: "world st' = snd (logger (LogTaskFailure task_nm e')
                  (fold (attempt_effect logger executor task_nm cfg (recorded_order st task_nm))
                     (map Suc [attempt..<Suc n]) (world st)))"
    unfolding up' using w w3 by simp
  show ?case
    apply (rule exI[of _ e'])
    apply (rule exI[of _ "[?start, ExecutorCall task_nm, Sleep (2 ^ attempt)] @ new"])
    apply (rule exI[of _ st'])
    using r t c l ne wf
    by (simp add: step tr3 calls_and_sleeps_def backoff_schedule_def up)
qed

definition plain_task :: "task_name list \<Rightarrow> task_config" where
  "plain_task deps = \<lparr>depends_on = Some deps, critical = None, max_retries = None,
     skip_on_condition = None, task_type = None\<rparr>"

lemma get_depends_on_plain_task [simp]: "get_depends_on (plain_task deps) = deps"
  by (simp add: get_depends_on_def plain_task_def)

definition failing_executor :: "nat executor" where
  "failing_executor w = (Raises ''TimeoutError'', Suc w)"

definition quiet_logger :: "nat audit_logger" where
  "quiet_logger ev w = (None, w)"

definition start_failing_logger :: "nat audit_logger" where
  "start_failing_logger ev w =
     (case ev of LogTaskStart t ty ord a \<Rightarrow> (Some ''AnalysisException'', w) | _ \<Rightarrow> (None, w))"

text \<open>
  C3, as stated, does not hold: \<^verbatim>\<open>log_task_start\<close> is called inside the \<^verbatim>\<open>try\<close> block,
  before the executor. With an audit logger whose \<^verbatim>\<open>log_task_start\<close> raises, and with
  \<open>max_retries = 3\<close>, every one of the four attempts fails before it reaches the
  executor: the executor, which counts its invocations in the world, is invoked not
  four times but never.
\<close>

theorem raising_logger_skips_executor:
  "always_raises failing_executor
   \<and> execute_task_with_retries start_failing_logger ''load'' (plain_task []) failing_executor 3
         (new_engine 0)
       = Finished False (FailedAttempt 4 ''AnalysisException'')
           \<lparr>world = 0,
            trace = [LogTaskStart ''load'' ''unknown'' 0 1, Sleep 1,
                     LogTaskStart ''load'' ''unknown'' 0 2, Sleep 2,
                     LogTaskStart ''load'' ''unknown'' 0 3, Sleep 4,
                     LogTaskStart ''load'' ''unknown'' 0 4,
                     LogTaskFailure ''load'' ''AnalysisException''],
            execution_order = Map.empty, task_results = Map.empty\<rparr>"
proof -
  have "always_raises failing_executor"
    by (simp add: always_raises_def failing_executor_def)
  moreover have "execute_task_with_retries start_failing_logger ''load'' (plain_task []) failing_executor 3
         (new_engine 0)
       = Finished False (FailedAttempt 4 ''AnalysisException'')
           \<lparr>world = 0,
            trace = [LogTaskStart ''load'' ''unknown'' 0 1, Sleep 1,
                     LogTaskStart ''load'' ''unknown'' 0 2, Sleep 2,
                     LogTaskStart ''load'' ''unknown'' 0 3, Sleep 4,
                     LogTaskStart ''load'' ''unknown'' 0 4,
                     LogTaskFailure ''load'' ''AnalysisException''],
            execution_order = Map.empty, task_results = Map.empty\<rparr>"
    by (simp add: execute_task_with_retries_def retry_loop.simps run_attempt_def audit_def emit_def
        start_failing_logger_def new_engine_def plain_task_def get_task_type_def Let_def)
  ultimately show ?thesis by (rule conjI)
qed

text \<open>
  C3, amended. A task whose executor raises on every invocation, run with
  \<open>max_retries = N\<close> for a natural number \<open>N\<close>, under an audit logger whose methods
  return normally: the executor is invoked exactly \<open>N + 1\<close> times, once in each of the
  attempts \<open>1, \<dots>, N + 1\<close> after that attempt's \<^verbatim>\<open>log_task_start\<close>; the engine sleeps
  \<open>2 ^ (i - 1)\<close> seconds after the \<open>i\<close>-th failed attempt for \<open>i = 1, \<dots>, N\<close> and
  not after the last one; and the call returns the flag \<open>False\<close> with a result of
  status \<open>FAILED\<close>. The world after the call is the world before it taken through the
  \<open>N + 1\<close> attempts and the final \<^verbatim>\<open>log_task_failure\<close>; when the logger leaves the
  world as it is, that is the executor's effect applied \<open>N + 1\<close> times.
\<close>

theorem always_failing_task_backoff:
  assumes "always_raises executor" and "logger_returns logger"
  shows "\<exists>e new st'.
           execute_task_with_retries logger task_nm cfg executor (int N) st
             = Finished False (FailedAttempt (Suc N) e) st'
         \<and> status_of (FailedAttempt (Suc N) e) = FAILED
         \<and> trace st' = trace st @ new
         \<and> calls_and_sleeps new = backoff_schedule task_nm 0 N
         \<and> executor_calls new = Suc N
         \<and> sleeps new = map (\<lambda>i. 2 ^ i) [0..<N]
         \<and> last new = LogTaskFailure task_nm e
         \<and> world st' = snd (logger (LogTaskFailure task_nm e)
                (fold (attempt_effect logger executor task_nm cfg (recorded_order st task_nm))
                   (map Suc [0..<Suc N]) (world st)))
         \<and> ((\<forall>ev w. snd (logger ev w) = w) \<longrightarrow>
                world st' = ((\<lambda>w. snd (executor w)) ^^ Suc N) (world st))"
proof -
  from retry_loop_always_raises[OF assms, of 0 N task_nm cfg st]
  obtain e new st' where
    r: "retry_loop logger task_nm cfg executor (int N) 0 st = Finished False (FailedAttempt (Suc N) e) st'"
    and t: "trace st' = trace st @ new"
    and c: "calls_and_sleeps new = backoff_schedule task_nm 0 N"
    and l: "last new = LogTaskFailure task_nm e"
    and w: "world st' = snd (logger (LogTaskFailure task_nm e)
                (fold (attempt_effect logger executor task_nm cfg (recorded_order st task_nm))
                   (map Suc [0..<Suc N]) (world st)))" by auto
  have ec: "executor_calls new = Suc N"
    using executor_calls_calls_and_sleeps[of new] c executor_calls_backoff_schedule[of task_nm 0 N]
    by simp
  have sl: "sleeps new = map (\<lambda>i. 2 ^ i) [0..<N]"
    using sleeps_calls_and_sleeps[of new] c sleeps_backoff_schedule[of task_nm 0 N] by simp
  have q: "world st' = ((\<lambda>w. snd (executor w)) ^^ Suc N) (world st)"
    if id: "\<forall>ev w. snd (logger ev w) = w"
  proof -
    have "attempt_effect logger executor task_nm cfg (recorded_order st task_nm)
            = (\<lambda>i w. snd (executor w))"
      using id by (simp add: attempt_effect_def fun_eq_iff)
    then have "world st' = fold (\<lambda>i w. snd (executor w)) (map Suc [0..<Suc N]) (world st)"
      using w id by simp
    also have "\<dots> = ((\<lambda>w. snd (executor w)) ^^ length (map Suc [0..<Suc N])) (world st)"
      by (rule fold_constant_step)
    finally show ?thesis by simp
  qed
  show ?thesis
    apply (rule exI[of _ e])
    apply (rule exI[of _ new])
    apply (rule exI[of _ st'])
    using r t c l w ec sl q by (simp add: execute_task_with_retries_def)
qed

theorem always_failing_task_backoff_witness:
  "always_raises failing_executor \<and> logger_returns quiet_logger \<and>
   (\<exists>e new st'.
      execute_task_with_retries quiet_logger ''load'' (plain_task []) failing_executor (int 3)
          (new_engine (0::nat))
        = Finished False (FailedAttempt 4 e) st'
      \<and> trace st' = trace (new_engine (0::nat)) @ new
      \<and> executor_calls new = 4
      \<and> sleeps new = [1, 2, 4]
      \<and> world st' = 4)"
proof -
  have h1: "always_raises failing_executor"
    by (simp add: always_raises_def failing_executor_def)
  have h2: "logger_returns quiet_logger"
    by (simp add: logger_returns_def quiet_logger_def)
  have u: "map (\<lambda>i. 2 ^ i) [0..<3] = [1, 2, 4::nat]" by (simp add: upt_rec)
  have id: "\<forall>ev w. snd (quiet_logger ev w) = w" by (simp add: quiet_logger_def)
  have f: "((\<lambda>w. snd (failing_executor w)) ^^ Suc 3) (world (new_engine (0::nat))) = 4"
    by (simp add: failing_executor_def new_engine_def)
  from always_failing_task_backoff[OF h1 h2, of "''load''" "plain_task []" 3 "new_engine (0::nat)"]
  obtain e new st' where
    "execute_task_with_retries quiet_logger ''load'' (plain_task []) failing_executor (int 3)
         (new_engine (0::nat))
       = Finished False (FailedAttempt (Suc 3) e) st'"
    "trace st' = trace (new_engine (0::nat)) @ new" "executor_calls new = Suc 3"
    "sleeps new = map (\<lambda>i. 2 ^ i) [0..<3]"
    "(\<forall>ev w. snd (quiet_logger ev w) = w) \<longrightarrow>
        world st' = ((\<lambda>w. snd (failing_executor w)) ^^ Suc 3) (world (new_engine (0::nat)))"
    by (elim exE conjE) (rule that)
  with u id f have "execute_task_with_retries quiet_logger ''load'' (plain_task []) failing_executor (int 3)
          (new_engine (0::nat))
        = Finished False (FailedAttempt 4 e) st'
      \<and> trace st' = trace (new_engine (0::nat)) @ new
      \<and> executor_calls new = 4
      \<and> sleeps new = [1, 2, 4]
      \<and> world st' = 4" by simp
  with h1 h2 show ?thesis by blast
qed

text \<open>
  C9. \<^verbatim>\<open>should_skip_task\<close> answers \<open>False\<close> when the skip condition is absent, when it
  is not the one predicate the evaluator knows, and when the query to the external
  state source raises; in each case the loop body goes on to the dependency check and
  the execution of the task.
\<close>

theorem should_skip_task_fail_open:
  assumes "cond = None \<or> (\<exists>c. cond = Some c \<and> c \<noteq> ''if_no_new_files'') \<or> spark (world st) = SqlRaises"
  shows "should_skip_task spark (world st) task_nm cond = False
       \<and> (\<forall>cfg. map_of tasks task_nm = Some cfg \<and> skip_on_condition cfg = cond \<longrightarrow>
            process_task logger spark tasks executors task_nm summ st
              = check_and_execute logger executors task_nm cfg summ st)"
proof -
  have "should_skip_task spark (world st) task_nm cond = False"
    using assms by (auto simp: should_skip_task_def split: option.splits)
  then show ?thesis by (auto simp: process_task_def)
qed

definition idle_spark :: "nat spark" where
  "idle_spark w = SqlRows [[''new_files'' \<mapsto> 0]]"

definition broken_spark :: "nat spark" where
  "broken_spark w = SqlRaises"

theorem should_skip_task_fail_open_witness:
  "should_skip_task idle_spark (world (new_engine 0)) ''load'' None = False
   \<and> should_skip_task idle_spark (world (new_engine 0)) ''load'' (Some ''if_not_updated'') = False
   \<and> should_skip_task broken_spark (world (new_engine 0)) ''load'' (Some ''if_no_new_files'') = False
   \<and> should_skip_task idle_spark (world (new_engine 0)) ''load'' (Some ''if_no_new_files'') = True"
proof -
  let ?st = "new_engine (0::nat)"
  have h1: "(None::string option) = None \<or> (\<exists>c. None = Some c \<and> c \<noteq> ''if_no_new_files'')
              \<or> idle_spark (world ?st) = SqlRaises" by simp
  have h2: "Some ''if_not_updated'' = None
              \<or> (\<exists>c. Some ''if_not_updated'' = Some c \<and> c \<noteq> ''if_no_new_files'')
              \<or> idle_spark (world ?st) = SqlRaises" by simp
  have h3: "Some ''if_no_new_files'' = None
              \<or> (\<exists>c. Some ''if_no_new_files'' = Some c \<and> c \<noteq> ''if_no_new_files'')
              \<or> broken_spark (world ?st) = SqlRaises" by (simp add: broken_spark_def)
  note a = should_skip_task_fail_open[where task_nm = "''load''" and spark = idle_spark
      and st = "new_engine (0::nat)" and cond = "None", OF h1, THEN conjunct1]
  note b = should_skip_task_fail_open[where task_nm = "''load''" and spark = idle_spark
      and st = "new_engine (0::nat)" and cond = "Some ''if_not_updated''", OF h2, THEN conjunct1]
  note c = should_skip_task_fail_open[where task_nm = "''load''" and spark = broken_spark
      and st = "new_engine (0::nat)" and cond = "Some ''if_no_new_files''", OF h3, THEN conjunct1]
  have d: "should_skip_task idle_spark (world ?st) ''load'' (Some ''if_no_new_files'') = True"
    by (simp add: should_skip_task_def idle_spark_def)
  from a b c d show ?thesis by simp
qed

section \<open>The dependency relation and the depth-first search\<close>

definition dep_edges :: "tasks \<Rightarrow> (task_name \<times> task_name) set" where
  "dep_edges tasks = {(task, dep). dep \<in> set (deps_of tasks task)}"

definition reaches_cycle :: "tasks \<Rightarrow> task_name \<Rightarrow> bool" where
  "reaches_cycle tasks task = (\<exists>x. (task, x) \<in> (dep_edges tasks)\<^sup>* \<and> (x, x) \<in> (dep_edges tasks)\<^sup>+)"

definition dfs_inv :: "tasks \<Rightarrow> dfs_state \<Rightarrow> bool" where
  "dfs_inv tasks s =
     (snd s \<subseteq> fst s \<and> dep_edges tasks `` (fst s - snd s) \<subseteq> fst s - snd s
      \<and> (\<forall>x \<in> fst s - snd s. (x, x) \<notin> (dep_edges tasks)\<^sup>+))"

lemma closed_rtrancl:
  assumes "E `` F \<subseteq> F" and "(x, y) \<in> E\<^sup>*" and "x \<in> F"
  shows "y \<in> F"
  using assms(2,3,1) by (induction rule: rtrancl_induct) auto

lemma dfs_inv_finish:
  assumes inv: "dfs_inv tasks (V, insert t S)" and tS: "t \<notin> S" and tV: "t \<in> V"
    and succ: "set (deps_of tasks t) \<subseteq> V - insert t S"
  shows "dfs_inv tasks (V, S)"
proof -
  let ?E = "dep_edges tasks"
  let ?F = "V - insert t S"
  have cl: "?E `` ?F \<subseteq> ?F" and nc: "\<forall>x\<in>?F. (x, x) \<notin> ?E\<^sup>+" and sub: "insert t S \<subseteq> V"
    using inv by (simp_all add: dfs_inv_def)
  have eq: "V - S = insert t ?F" using tS tV by auto
  have tsucc: "?E `` {t} \<subseteq> ?F" using succ by (auto simp: dep_edges_def)
  have cl': "?E `` (V - S) \<subseteq> V - S" unfolding eq using cl tsucc by auto
  have tt: "(t, t) \<notin> ?E\<^sup>+"
  proof
    assume "(t, t) \<in> ?E\<^sup>+"
    then obtain y where "(t, y) \<in> ?E" and "(y, t) \<in> ?E\<^sup>*"
      by (meson tranclD)
    then have "y \<in> ?F" using tsucc by auto
    with closed_rtrancl[OF cl \<open>(y, t) \<in> ?E\<^sup>*\<close>] have "t \<in> ?F" by simp
    then show False by simp
  qed
  have nc': "\<forall>x\<in>V - S. (x, x) \<notin> ?E\<^sup>+" unfolding eq using nc tt by simp
  have "S \<subseteq> V" using sub by simp
  then show ?thesis using cl' nc' by (simp add: dfs_inv_def)
qed

lemma dfs_spec:
  fixes U :: "task_name set"
  shows "\<lbrakk>finite U; dep_edges tasks `` U \<subseteq> U; task \<in> U; card (U - fst s) \<le> n;
           task \<notin> fst s; dfs_inv tasks s; \<forall>x \<in> snd s. (x, task) \<in> (dep_edges tasks)\<^sup>*\<rbrakk>
         \<Longrightarrow> \<exists>b s'. has_cycle n tasks task s = Some (b, s')
               \<and> (b \<longrightarrow> reaches_cycle tasks task)
               \<and> (\<not> b \<longrightarrow> snd s' = snd s \<and> insert task (fst s) \<subseteq> fst s' \<and> dfs_inv tasks s')"
    and "\<And>cur. \<lbrakk>finite U; dep_edges tasks `` U \<subseteq> U; cur \<in> U; card (U - fst s) \<le> n;
           cur \<in> snd s; set deps \<subseteq> dep_edges tasks `` {cur}; dfs_inv tasks s;
           \<forall>x \<in> snd s. (x, cur) \<in> (dep_edges tasks)\<^sup>*\<rbrakk>
         \<Longrightarrow> \<exists>b s'. has_cycle_deps n tasks deps s = Some (b, s')
               \<and> (b \<longrightarrow> reaches_cycle tasks cur)
               \<and> (\<not> b \<longrightarrow> snd s' = snd s \<and> fst s \<subseteq> fst s' \<and> dfs_inv tasks s'
                      \<and> set deps \<subseteq> fst s' - snd s)"
proof (induction n tasks task s and n tasks deps s rule: has_cycle_has_cycle_deps.induct)
  case (1 tasks task s)
  then have "task \<in> U - fst s" by simp
  with 1(1) have "card (U - fst s) \<noteq> 0" by auto
  with 1(4) show ?case by simp
next
  case (2 n tasks task visited rec_stack)
  let ?E = "dep_edges tasks"
  let ?s1 = "(insert task visited, insert task rec_stack)"
  have tV: "task \<notin> visited" and inv: "dfs_inv tasks (visited, rec_stack)" using 2 by simp_all
  then have tS: "task \<notin> rec_stack" by (auto simp: dfs_inv_def)
  have c: "card (U - insert task visited) \<le> n"
  proof -
    have "U - visited = insert task (U - insert task visited)" using 2(4) tV by auto
    moreover have "task \<notin> U - insert task visited" by simp
    ultimately have "card (U - visited) = Suc (card (U - insert task visited))"
      using 2(2) by (metis card_insert_disjoint finite_Diff)
    with 2(5) show ?thesis by simp
  qed
  have inv1: "dfs_inv tasks ?s1"
  proof -
    have "insert task visited - insert task rec_stack = visited - rec_stack" using tV tS by auto
    with inv show ?thesis by (auto simp: dfs_inv_def)
  qed
  have path1: "\<forall>x \<in> snd ?s1. (x, task) \<in> ?E\<^sup>*" using 2(8) by simp
  have sub: "set (deps_of tasks task) \<subseteq> ?E `` {task}" by (auto simp: dep_edges_def)
  from "2.IH"[of task, OF 2(2,3,4)] c inv1 path1 sub
  obtain b s' where r: "has_cycle_deps n tasks (deps_of tasks task) ?s1 = Some (b, s')"
    and bt: "b \<longrightarrow> reaches_cycle tasks task"
    and bf: "\<not> b \<longrightarrow> snd s' = insert task rec_stack \<and> insert task visited \<subseteq> fst s' \<and> dfs_inv tasks s'
                \<and> set (deps_of tasks task) \<subseteq> fst s' - insert task rec_stack"
    by auto
  show ?case
  proof (cases b)
    case True
    with r bt show ?thesis by auto
  next
    case False
    obtain V' S' where s': "s' = (V', S')" by (cases s')
    with False bf have S': "S' = insert task rec_stack" and V': "insert task visited \<subseteq> V'"
      and inv': "dfs_inv tasks (V', insert task rec_stack)"
      and succ: "set (deps_of tasks task) \<subseteq> V' - insert task rec_stack" by auto
    have "dfs_inv tasks (V', rec_stack)"
      using dfs_inv_finish[OF inv' tS _ succ] V' by auto
    moreover have "S' - {task} = rec_stack" using S' tS by auto
    ultimately show ?thesis using r False s' V' by auto
  qed
next
  case (3 n tasks s)
  then show ?case by auto
next
  case (4 n tasks dep deps visited rec_stack)
  let ?E = "dep_edges tasks"
  have inv: "dfs_inv tasks (visited, rec_stack)" and cur: "cur \<in> rec_stack"
    and path: "\<forall>x \<in> rec_stack. (x, cur) \<in> ?E\<^sup>*"
    and edge: "(cur, dep) \<in> ?E" and rest: "set deps \<subseteq> ?E `` {cur}"
    and card: "card (U - visited) \<le> n"
    using 4 by auto
  have depU: "dep \<in> U" using edge "4.prems"(2,3) by auto
  show ?case
  proof (cases "dep \<in> visited")
    case unvisited: False
    have path': "\<forall>x \<in> snd (visited, rec_stack). (x, dep) \<in> ?E\<^sup>*"
      using path edge by (auto intro: rtrancl_into_rtrancl)
    from "4.IH"(1)[OF unvisited "4.prems"(1,2) depU] card unvisited inv path'
    obtain b s' where r: "has_cycle n tasks dep (visited, rec_stack) = Some (b, s')"
      and bt: "b \<longrightarrow> reaches_cycle tasks dep"
      and bf: "\<not> b \<longrightarrow> snd s' = rec_stack \<and> insert dep visited \<subseteq> fst s' \<and> dfs_inv tasks s'"
      by auto
    show ?thesis
    proof (cases b)
      case True
      with bt obtain x where "(dep, x) \<in> ?E\<^sup>*" "(x, x) \<in> ?E\<^sup>+" by (auto simp: reaches_cycle_def)
      with edge have "reaches_cycle tasks cur"
        unfolding reaches_cycle_def by (meson converse_rtrancl_into_rtrancl)
      with r True unvisited show ?thesis by auto
    next
      case False
      with bf have S': "snd s' = rec_stack" and V': "insert dep visited \<subseteq> fst s'"
        and inv': "dfs_inv tasks s'" by auto
      have card': "card (U - fst s') \<le> n"
      proof -
        have "U - fst s' \<subseteq> U - visited" using V' by auto
        then have "card (U - fst s') \<le> card (U - visited)"
          using "4.prems"(1) by (simp add: card_mono)
        with card show ?thesis by simp
      qed
      obtain V1 S1 where s1: "s' = (V1, S1)" by (cases s')
      have bF: "b = False" using False by simp
      from "4.IH"(2)[OF unvisited r refl bF "4.prems"(1,2), of cur] "4.prems"(3) card' cur S' rest inv' path
      obtain b2 s2 where r2: "has_cycle_deps n tasks deps s' = Some (b2, s2)"
        and bt2: "b2 \<longrightarrow> reaches_cycle tasks cur"
        and bf2: "\<not> b2 \<longrightarrow> snd s2 = snd s' \<and> fst s' \<subseteq> fst s2 \<and> dfs_inv tasks s2
                      \<and> set deps \<subseteq> fst s2 - snd s'"
        by auto
      have depF: "dep \<notin> rec_stack" using unvisited inv by (auto simp: dfs_inv_def)
      show ?thesis using r False unvisited r2 bt2 bf2 S' V' depF by auto
    qed
  next
    case visited: True
    show ?thesis
    proof (cases "dep \<in> rec_stack")
      case True
      with path have "(dep, cur) \<in> ?E\<^sup>*" by simp
      with edge have "(dep, dep) \<in> ?E\<^sup>+" by (meson rtrancl_into_trancl1)
      moreover have "(cur, dep) \<in> ?E\<^sup>*" using edge by auto
      ultimately have "reaches_cycle tasks cur" unfolding reaches_cycle_def by blast
      with visited True show ?thesis by auto
    next
      case False
      from "4.IH"(3)[OF _ False, of cur] visited "4.prems"(1,2,3) card cur rest inv path
      obtain b2 s2 where r2: "has_cycle_deps n tasks deps (visited, rec_stack) = Some (b2, s2)"
        and bt2: "b2 \<longrightarrow> reaches_cycle tasks cur"
        and bf2: "\<not> b2 \<longrightarrow> snd s2 = rec_stack \<and> visited \<subseteq> fst s2 \<and> dfs_inv tasks s2
                      \<and> set deps \<subseteq> fst s2 - rec_stack"
        by auto
      show ?thesis using visited False r2 bt2 bf2 by auto
    qed
  qed
qed

definition has_dep_cycle :: "tasks \<Rightarrow> bool" where
  "has_dep_cycle tasks = (\<exists>x. (x, x) \<in> (dep_edges tasks)\<^sup>+)"

definition dfs_nodes :: "task_name list \<Rightarrow> tasks \<Rightarrow> task_name set" where
  "dfs_nodes iter_order tasks =
     set iter_order \<union> set (map fst tasks)
       \<union> set (concat (map (\<lambda>(task, config). get_depends_on config) tasks))"

lemma dep_edges_key:
  assumes "(t, d) \<in> dep_edges tasks"
  shows "\<exists>cfg. (t, cfg) \<in> set tasks \<and> d \<in> set (get_depends_on cfg)"
proof (cases "map_of tasks t")
  case None
  with assms show ?thesis by (simp add: dep_edges_def deps_of_def)
next
  case (Some cfg)
  with assms have "d \<in> set (get_depends_on cfg)" by (simp add: dep_edges_def deps_of_def)
  with map_of_SomeD[OF Some] show ?thesis by blast
qed

lemma dfs_nodes_closed: "dep_edges tasks `` dfs_nodes iter_order tasks \<subseteq> dfs_nodes iter_order tasks"
proof
  fix d assume "d \<in> dep_edges tasks `` dfs_nodes iter_order tasks"
  then obtain t where "(t, d) \<in> dep_edges tasks" by blast
  from dep_edges_key[OF this] obtain cfg where "(t, cfg) \<in> set tasks" "d \<in> set (get_depends_on cfg)"
    by blast
  then have "d \<in> set (concat (map (\<lambda>(task, config). get_depends_on config) tasks))"
    by force
  then show "d \<in> dfs_nodes iter_order tasks" unfolding dfs_nodes_def by blast
qed

lemma finite_dfs_nodes: "finite (dfs_nodes iter_order tasks)"
  unfolding dfs_nodes_def by (intro finite_UnI finite_set)

lemma dfs_inv_no_cycle:
  assumes "dfs_inv tasks (V, {})" and "x \<in> V"
  shows "\<not> reaches_cycle tasks x"
proof
  assume "reaches_cycle tasks x"
  then obtain y where xy: "(x, y) \<in> (dep_edges tasks)\<^sup>*" and yy: "(y, y) \<in> (dep_edges tasks)\<^sup>+"
    by (auto simp: reaches_cycle_def)
  from assms have cl: "dep_edges tasks `` V \<subseteq> V" and nc: "\<forall>z\<in>V. (z, z) \<notin> (dep_edges tasks)\<^sup>+"
    by (simp_all add: dfs_inv_def)
  from closed_rtrancl[OF cl xy assms(2)] nc yy show False by blast
qed

lemma check_cycles_spec:
  assumes "finite U" and "dep_edges tasks `` U \<subseteq> U"
  shows "\<lbrakk>set iter_order \<subseteq> U; card (U - fst s) \<le> n; snd s = {}; dfs_inv tasks s\<rbrakk> \<Longrightarrow>
     (\<exists>pre task post. check_cycles n tasks iter_order s = Some (Inl (CircularDependency task))
          \<and> iter_order = pre @ task # post \<and> reaches_cycle tasks task
          \<and> (\<forall>p \<in> set pre. \<not> reaches_cycle tasks p))
   \<or> (\<exists>V'. check_cycles n tasks iter_order s = Some (Inr (V', {}))
          \<and> fst s \<union> set iter_order \<subseteq> V' \<and> dfs_inv tasks (V', {}))"
proof (induction iter_order arbitrary: s)
  case Nil
  then show ?case by (cases s) auto
next
  case (Cons task rest)
  obtain V S where s: "s = (V, S)" by (cases s)
  with Cons.prems have S: "S = {}" and inv: "dfs_inv tasks (V, {})" and card: "card (U - V) \<le> n"
    and tU: "task \<in> U" and restU: "set rest \<subseteq> U" by auto
  have step: "\<And>V1. \<lbrakk>V \<subseteq> V1; task \<in> V1; dfs_inv tasks (V1, {});
                check_cycles n tasks (task # rest) s = check_cycles n tasks rest (V1, {})\<rbrakk> \<Longrightarrow> ?case"
  proof -
    fix V1 assume sub: "V \<subseteq> V1" and tV1: "task \<in> V1" and inv1: "dfs_inv tasks (V1, {})"
      and eq: "check_cycles n tasks (task # rest) s = check_cycles n tasks rest (V1, {})"
    have "U - V1 \<subseteq> U - V" using sub by auto
    then have "card (U - V1) \<le> card (U - V)" using assms(1) by (simp add: card_mono)
    with card have card1: "card (U - fst (V1, {})) \<le> n" by simp
    from Cons.IH[OF restU card1 _ inv1]
    consider (bad) pre t post where
        "check_cycles n tasks rest (V1, {}) = Some (Inl (CircularDependency t))"
        "rest = pre @ t # post" "reaches_cycle tasks t" "\<forall>p \<in> set pre. \<not> reaches_cycle tasks p"
      | (good) V' where "check_cycles n tasks rest (V1, {}) = Some (Inr (V', {}))"
        "V1 \<union> set rest \<subseteq> V'" "dfs_inv tasks (V', {})"
      by auto
    then show ?case
    proof cases
      case bad
      have "\<not> reaches_cycle tasks task" using dfs_inv_no_cycle[OF inv1 tV1] .
      with bad have "\<forall>p \<in> set (task # pre). \<not> reaches_cycle tasks p" by simp
      moreover have "task # rest = (task # pre) @ t # post" using bad by simp
      ultimately show ?thesis using bad(1,3) eq
        by (intro disjI1 exI[of _ "task # pre"] exI[of _ t] exI[of _ post]) simp
    next
      case good
      then show ?thesis using eq sub tV1 s
        by (intro disjI2 exI[of _ V']) auto
    qed
  qed
  show ?case
  proof (cases "task \<in> V")
    case True
    show ?thesis
      by (rule step[of V]) (use True inv s S in auto)
  next
    case False
    from dfs_spec(1)[OF assms tU, of "(V, {})" n] card False inv
    obtain b s' where r: "has_cycle n tasks task (V, {}) = Some (b, s')"
      and bt: "b \<longrightarrow> reaches_cycle tasks task"
      and bf: "\<not> b \<longrightarrow> snd s' = {} \<and> insert task V \<subseteq> fst s' \<and> dfs_inv tasks s'"
      by auto
    show ?thesis
    proof (cases b)
      case True
      have "task # rest = [] @ task # rest" by simp
      moreover have "check_cycles n tasks (task # rest) s = Some (Inl (CircularDependency task))"
        using r True False s S by simp
      ultimately show ?thesis using bt True
        by (intro disjI1 exI[of _ "[]"] exI[of _ task] exI[of _ rest]) simp
    next
      case b: False
      obtain V1 S1 where s': "s' = (V1, S1)" by (cases s')
      with bf b have "S1 = {}" "insert task V \<subseteq> V1" "dfs_inv tasks (V1, {})" by auto
      then show ?thesis
        by (intro step[of V1]) (use r b False s S s' in auto)
    qed
  qed
qed

section \<open>What validation returns\<close>

lemma first_missing_None: "first_missing A t ds = None \<longleftrightarrow> set ds \<subseteq> A"
  by (induction ds) auto

lemma first_missing_Some:
  "first_missing A t ds = Some e \<Longrightarrow> \<exists>d. e = NonExistentDependency t d \<and> d \<in> set ds \<and> d \<notin> A"
  by (induction ds) (auto split: if_splits)

lemma check_existence_None:
  "check_existence A tasks = None \<longleftrightarrow> (\<forall>(t, cfg) \<in> set tasks. set (get_depends_on cfg) \<subseteq> A)"
  by (induction tasks) (auto simp: first_missing_None split: option.splits)

lemma check_existence_Some:
  "check_existence A tasks = Some e \<Longrightarrow>
     \<exists>t cfg d. e = NonExistentDependency t d \<and> (t, cfg) \<in> set tasks
              \<and> d \<in> set (get_depends_on cfg) \<and> d \<notin> A"
proof (induction tasks)
  case Nil
  then show ?case by simp
next
  case (Cons p tasks)
  obtain t cfg where p: "p = (t, cfg)" by (cases p)
  show ?case
  proof (cases "first_missing A t (get_depends_on cfg)")
    case None
    with Cons p show ?thesis by fastforce
  next
    case (Some e')
    with Cons.prems p have "e' = e" by simp
    with first_missing_Some[OF Some] p show ?thesis by fastforce
  qed
qed

lemma dfs_inv_init: "dfs_inv tasks ({}, {})"
  by (simp add: dfs_inv_def)

lemma check_cycles_initial:
  assumes "card (dfs_nodes iter_order tasks) \<le> frames"
  shows "(\<exists>pre task post. check_cycles frames tasks iter_order ({}, {})
           = Some (Inl (CircularDependency task))
          \<and> iter_order = pre @ task # post \<and> reaches_cycle tasks task
          \<and> (\<forall>p \<in> set pre. \<not> reaches_cycle tasks p))
   \<or> (\<exists>V'. check_cycles frames tasks iter_order ({}, {}) = Some (Inr (V', {}))
          \<and> set iter_order \<subseteq> V' \<and> dfs_inv tasks (V', {}))"
proof -
  have "set iter_order \<subseteq> dfs_nodes iter_order tasks" by (auto simp: dfs_nodes_def)
  moreover have "card (dfs_nodes iter_order tasks - fst ({}, {})) \<le> frames"
    using assms by simp
  ultimately show ?thesis
    using check_cycles_spec[OF finite_dfs_nodes dfs_nodes_closed, of iter_order iter_order tasks
        "({}, {})" frames] dfs_inv_init
    by simp
qed

lemma cycle_node_is_key:
  assumes "(x, x) \<in> (dep_edges tasks)\<^sup>+"
  shows "x \<in> set (map fst tasks)"
proof -
  from assms obtain y where "(x, y) \<in> dep_edges tasks" by (meson tranclD)
  from dep_edges_key[OF this] show ?thesis by force
qed

lemma reaches_cycle_has_dep_cycle: "reaches_cycle tasks t \<Longrightarrow> has_dep_cycle tasks"
  by (auto simp: reaches_cycle_def has_dep_cycle_def)

lemma validate_acyclic:
  assumes "\<not> has_dep_cycle tasks" and "card (dfs_nodes iter_order tasks) \<le> frames"
  shows "validate_dependency_graph frames iter_order tasks =
           (case check_existence (set (map fst tasks)) tasks of
              Some e \<Rightarrow> Inl e | None \<Rightarrow> Inr True)"
proof -
  from check_cycles_initial[OF assms(2)] assms(1)
  obtain V' where "check_cycles frames tasks iter_order ({}, {}) = Some (Inr (V', {}))"
    by (auto dest: reaches_cycle_has_dep_cycle)
  then show ?thesis by (simp add: validate_dependency_graph_def)
qed

lemma validate_cyclic:
  assumes "has_dep_cycle tasks" and "set (map fst tasks) \<subseteq> set iter_order"
    and "card (dfs_nodes iter_order tasks) \<le> frames"
  shows "\<exists>pre task post. validate_dependency_graph frames iter_order tasks = Inl (CircularDependency task)
          \<and> iter_order = pre @ task # post \<and> reaches_cycle tasks task
          \<and> (\<forall>p \<in> set pre. \<not> reaches_cycle tasks p)"
proof -
  from assms(1) obtain x where xx: "(x, x) \<in> (dep_edges tasks)\<^sup>+" by (auto simp: has_dep_cycle_def)
  then have rx: "reaches_cycle tasks x" by (auto simp: reaches_cycle_def)
  have xi: "x \<in> set iter_order" using cycle_node_is_key[OF xx] assms(2) by blast
  from check_cycles_initial[OF assms(3)]
  show ?thesis
  proof (elim disjE exE conjE)
    fix pre task post
    assume "check_cycles frames tasks iter_order ({}, {}) = Some (Inl (CircularDependency task))"
      "iter_order = pre @ task # post" "reaches_cycle tasks task"
      "\<forall>p \<in> set pre. \<not> reaches_cycle tasks p"
    then show ?thesis
      by (intro exI[of _ pre] exI[of _ task] exI[of _ post]) (simp add: validate_dependency_graph_def)
  next
    fix V' assume "set iter_order \<subseteq> V'" "dfs_inv tasks (V', {})"
    with xi dfs_inv_no_cycle[of tasks V' x] rx show ?thesis by blast
  qed
qed

text \<open>More frames do not change what the search returns.\<close>

lemma has_cycle_more_frames:
  "has_cycle n tasks task s = Some r \<Longrightarrow> has_cycle (n + k) tasks task s = Some r"
  "has_cycle_deps n tasks deps s = Some r \<Longrightarrow> has_cycle_deps (n + k) tasks deps s = Some r"
proof (induction n tasks task s and n tasks deps s arbitrary: r and r rule: has_cycle_has_cycle_deps.induct)
  case (1 tasks task s)
  then show ?case by simp
next
  case (2 n tasks task visited rec_stack)
  from "2.prems" obtain b s' where
    d: "has_cycle_deps n tasks (deps_of tasks task) (insert task visited, insert task rec_stack) = Some (b, s')"
    by (auto split: option.splits)
  from "2.IH"[OF d] "2.prems" d show ?case by simp
next
  case (3 n tasks s)
  then show ?case by simp
next
  case (4 n tasks dep deps visited rec_stack)
  show ?case
  proof (cases "dep \<notin> visited")
    case True
    from "4.prems" True obtain b s' where h: "has_cycle n tasks dep (visited, rec_stack) = Some (b, s')"
      by (auto split: option.splits)
    note h' = "4.IH"(1)[OF True h]
    show ?thesis
    proof (cases b)
      case True
      with "4.prems" h h' \<open>dep \<notin> visited\<close> show ?thesis by auto
    next
      case False
      with "4.prems" h \<open>dep \<notin> visited\<close> have "has_cycle_deps n tasks deps s' = Some r" by simp
      from "4.IH"(2)[OF \<open>dep \<notin> visited\<close> h refl _ this] False h h' \<open>dep \<notin> visited\<close>
      show ?thesis by simp
    qed
  next
    case False
    with "4.prems" "4.IH"(3) show ?thesis by (auto split: if_splits)
  qed
qed

lemma check_cycles_more_frames:
  "check_cycles n tasks order s = Some r \<Longrightarrow> check_cycles (n + k) tasks order s = Some r"
proof (induction order arbitrary: s)
  case Nil
  then show ?case by simp
next
  case (Cons task rest)
  obtain V S where s: "s = (V, S)" by (cases s)
  show ?case
  proof (cases "task \<in> V")
    case True
    with Cons s show ?thesis by simp
  next
    case False
    with Cons.prems s obtain b s' where h: "has_cycle n tasks task (V, S) = Some (b, s')"
      by (auto split: option.splits)
    from has_cycle_more_frames(1)[OF h, of k] Cons h False s show ?thesis
      by (cases b) simp_all
  qed
qed

text \<open>Whatever the depth allowed, a graph that validation accepts is closed and acyclic.\<close>

lemma validate_accepts:
  assumes "validate_dependency_graph frames iter_order tasks = Inr ok"
    and "set (map fst tasks) \<subseteq> set iter_order"
  shows "\<not> has_dep_cycle tasks"
    and "\<forall>(t, cfg) \<in> set tasks. set (get_depends_on cfg) \<subseteq> set (map fst tasks)"
proof -
  from assms(1) obtain s where c: "check_cycles frames tasks iter_order ({}, {}) = Some (Inr s)"
    and e: "check_existence (set (map fst tasks)) tasks = None"
    by (auto simp: validate_dependency_graph_def split: option.splits sum.splits)
  from e show "\<forall>(t, cfg) \<in> set tasks. set (get_depends_on cfg) \<subseteq> set (map fst tasks)"
    by (simp add: check_existence_None)
  let ?n = "frames + card (dfs_nodes iter_order tasks)"
  have c': "check_cycles ?n tasks iter_order ({}, {}) = Some (Inr s)"
    by (rule check_cycles_more_frames[OF c])
  have "card (dfs_nodes iter_order tasks) \<le> ?n" by simp
  from check_cycles_initial[OF this] c'
  obtain V' where V: "set iter_order \<subseteq> V'" "dfs_inv tasks (V', {})" by auto
  show "\<not> has_dep_cycle tasks"
  proof
    assume "has_dep_cycle tasks"
    then obtain x where xx: "(x, x) \<in> (dep_edges tasks)\<^sup>+" by (auto simp: has_dep_cycle_def)
    then have rx: "reaches_cycle tasks x" by (auto simp: reaches_cycle_def)
    have "x \<in> V'" using cycle_node_is_key[OF xx] assms(2) V(1) by blast
    with dfs_inv_no_cycle[OF V(2)] rx show False by blast
  qed
qed

section \<open>Kahn's algorithm\<close>

lemma relax_spec:
  assumes "set nbs \<subseteq> dom (map_of ind)"
  shows "\<exists>ind' new. relax nbs ind queue = Inr (ind', queue @ new)
       \<and> map_of ind' = (\<lambda>t. map_option (\<lambda>d. d - int (count_list nbs t)) (map_of ind t))
       \<and> distinct new
       \<and> set new = {n \<in> set nbs. \<exists>d. map_of ind n = Some d \<and> 1 \<le> d \<and> d \<le> int (count_list nbs n)}"
  using assms
proof (induction nbs arbitrary: ind queue)
  case Nil
  have "map_of ind = (\<lambda>t. map_option (\<lambda>d. d - int (count_list [] t)) (map_of ind t))"
    by (rule ext) (simp add: option.map_ident)
  then show ?case by simp
next
  case (Cons nb nbs)
  from Cons.prems obtain d where d: "map_of ind nb = Some d" by auto
  let ?ind1 = "AList.update nb (d - 1) ind"
  let ?q1 = "if d - 1 = 0 then queue @ [nb] else queue"
  have m1: "map_of ?ind1 = (map_of ind)(nb \<mapsto> d - 1)" by (simp add: update_conv')
  have sub: "set nbs \<subseteq> dom (map_of ?ind1)" using Cons.prems by (auto simp: m1)
  from Cons.IH[OF sub, of ?q1] obtain ind' new where
    r: "relax nbs ?ind1 ?q1 = Inr (ind', ?q1 @ new)"
    and m: "map_of ind' = (\<lambda>t. map_option (\<lambda>d. d - int (count_list nbs t)) (map_of ?ind1 t))"
    and dn: "distinct new"
    and sn: "set new = {n \<in> set nbs. \<exists>d. map_of ?ind1 n = Some d \<and> 1 \<le> d \<and> d \<le> int (count_list nbs n)}"
    by blast
  let ?new = "(if d - 1 = 0 then [nb] else []) @ new"
  have step: "relax (nb # nbs) ind queue = Inr (ind', queue @ ?new)"
    using d r by (cases "d - 1 = 0") (simp_all add: Let_def)
  have m': "map_of ind' = (\<lambda>t. map_option (\<lambda>d. d - int (count_list (nb # nbs) t)) (map_of ind t))"
    by (rule ext) (auto simp: m m1 d)
  have nbnew: "d - 1 = 0 \<Longrightarrow> nb \<notin> set new" by (auto simp: sn update_conv')
  have dist: "distinct ?new" using dn nbnew by simp
  have cnt: "nb \<notin> set nbs \<Longrightarrow> count_list nbs nb = 0" by simp
  have setn: "set ?new = {n \<in> set (nb # nbs). \<exists>d. map_of ind n = Some d \<and> 1 \<le> d
                  \<and> d \<le> int (count_list (nb # nbs) n)}" (is "?L = ?R")
  proof (rule set_eqI)
    fix n
    show "n \<in> ?L \<longleftrightarrow> n \<in> ?R"
    proof (cases "n = nb")
      case True
      have "nb \<in> set new \<longleftrightarrow> nb \<in> set nbs \<and> 2 \<le> d \<and> d - 1 \<le> int (count_list nbs nb)"
        by (auto simp: sn m1)
      moreover have "2 \<le> d \<Longrightarrow> d - 1 \<le> int (count_list nbs nb) \<Longrightarrow> nb \<in> set nbs"
        using cnt by fastforce
      ultimately show ?thesis using True d by auto
    next
      case False
      then show ?thesis by (auto simp: sn m1)
    qed
  qed
  show ?case using step m' dist setn by blast
qed

definition dependents :: "tasks \<Rightarrow> task_name \<Rightarrow> task_name list" where
  "dependents tasks d =
     concat (map (\<lambda>(task, config). replicate (count_list (get_depends_on config) d) task) tasks)"

lemma add_edges_spec:
  assumes "task \<in> dom (map_of ind)" and "set deps \<subseteq> dom (map_of adj)"
  shows "\<exists>ind' adj'. add_edges task deps (ind, adj) = Inr (ind', adj')
       \<and> map_of ind' = (map_of ind)(task \<mapsto> the (map_of ind task) + int (length deps))
       \<and> map_of adj' = (\<lambda>d. map_option (\<lambda>ns. ns @ replicate (count_list deps d) task) (map_of adj d))"
  using assms
proof (induction deps arbitrary: ind adj)
  case Nil
  have "map_of adj = (\<lambda>d. map_option (\<lambda>ns. ns @ replicate (count_list [] d) task) (map_of adj d))"
    by (rule ext) (simp add: option.map_ident)
  moreover have "map_of ind = (map_of ind)(task \<mapsto> the (map_of ind task) + int (length []))"
    using Nil.prems(1) by (auto simp: fun_upd_idem)
  ultimately show ?case by simp
next
  case (Cons dep deps)
  from Cons.prems obtain nbs dv where a: "map_of adj dep = Some nbs" and i: "map_of ind task = Some dv"
    by auto
  let ?ind1 = "AList.update task (dv + 1) ind"
  let ?adj1 = "AList.update dep (nbs @ [task]) adj"
  have t1: "task \<in> dom (map_of ?ind1)" by (simp add: update_conv')
  have s1: "set deps \<subseteq> dom (map_of ?adj1)" using Cons.prems(2) by (auto simp: update_conv')
  from Cons.IH[OF t1 s1] obtain ind' adj' where
    r: "add_edges task deps (?ind1, ?adj1) = Inr (ind', adj')"
    and mi: "map_of ind' = (map_of ?ind1)(task \<mapsto> the (map_of ?ind1 task) + int (length deps))"
    and ma: "map_of adj' = (\<lambda>d. map_option (\<lambda>ns. ns @ replicate (count_list deps d) task) (map_of ?adj1 d))"
    by blast
  have "add_edges task (dep # deps) (ind, adj) = Inr (ind', adj')" using a i r by simp
  moreover have "map_of ind' = (map_of ind)(task \<mapsto> the (map_of ind task) + int (length (dep # deps)))"
    by (simp add: mi update_conv' i add.assoc)
  moreover have "map_of adj' = (\<lambda>d. map_option (\<lambda>ns. ns @ replicate (count_list (dep # deps) d) task) (map_of adj d))"
    by (rule ext) (simp add: ma update_conv' a replicate_app_Cons_same)
  ultimately show ?case by blast
qed

lemma deps_of_Cons:
  "deps_of ((t, cfg) # rest) x = (if x = t then get_depends_on cfg else deps_of rest x)"
  by (simp add: deps_of_def)

lemma deps_of_not_key: "x \<notin> set (map fst ts) \<Longrightarrow> deps_of ts x = []"
  by (simp add: deps_of_def map_of_eq_None_iff[THEN iffD2] image_iff)

lemma build_graph_spec:
  assumes "distinct (map fst rest)" and "set (map fst rest) \<subseteq> dom (map_of ind)"
    and "\<forall>(t, cfg) \<in> set rest. set (get_depends_on cfg) \<subseteq> dom (map_of adj)"
  shows "\<exists>ind' adj'. build_graph rest (ind, adj) = Inr (ind', adj')
       \<and> map_of ind' = (\<lambda>t. map_option (\<lambda>v. v + int (length (deps_of rest t))) (map_of ind t))
       \<and> map_of adj' = (\<lambda>d. map_option (\<lambda>ns. ns @ dependents rest d) (map_of adj d))"
  using assms
proof (induction rest arbitrary: ind adj)
  case Nil
  have "map_of ind = (\<lambda>t. map_option (\<lambda>v. v + int (length (deps_of [] t))) (map_of ind t))"
    by (rule ext) (simp add: deps_of_def option.map_ident)
  moreover have "map_of adj = (\<lambda>d. map_option (\<lambda>ns. ns @ dependents [] d) (map_of adj d))"
    by (rule ext) (simp add: dependents_def option.map_ident)
  ultimately show ?case by simp
next
  case (Cons p rest)
  obtain t cfg where p: "p = (t, cfg)" by (cases p)
  from Cons.prems p have td: "t \<in> dom (map_of ind)" and ds: "set (get_depends_on cfg) \<subseteq> dom (map_of adj)"
    and tn: "t \<notin> set (map fst rest)" and dr: "distinct (map fst rest)" by auto
  from add_edges_spec[OF td ds] obtain ind1 adj1 where
    a: "add_edges t (get_depends_on cfg) (ind, adj) = Inr (ind1, adj1)"
    and mi1: "map_of ind1 = (map_of ind)(t \<mapsto> the (map_of ind t) + int (length (get_depends_on cfg)))"
    and ma1: "map_of adj1 = (\<lambda>d. map_option (\<lambda>ns. ns @ replicate (count_list (get_depends_on cfg) d) t) (map_of adj d))"
    by blast
  have k1: "set (map fst rest) \<subseteq> dom (map_of ind1)" using Cons.prems(2) by (auto simp: mi1)
  have d1: "\<forall>(t, cfg) \<in> set rest. set (get_depends_on cfg) \<subseteq> dom (map_of adj1)"
    using Cons.prems(3) by (auto simp: ma1 dom_def)
  from Cons.IH[OF dr k1 d1] obtain ind' adj' where
    r: "build_graph rest (ind1, adj1) = Inr (ind', adj')"
    and mi: "map_of ind' = (\<lambda>t. map_option (\<lambda>v. v + int (length (deps_of rest t))) (map_of ind1 t))"
    and ma: "map_of adj' = (\<lambda>d. map_option (\<lambda>ns. ns @ dependents rest d) (map_of adj1 d))"
    by blast
  have "build_graph (p # rest) (ind, adj) = Inr (ind', adj')" using p a r by simp
  moreover have "map_of ind' = (\<lambda>x. map_option (\<lambda>v. v + int (length (deps_of (p # rest) x))) (map_of ind x))"
  proof (rule ext)
    fix x
    show "map_of ind' x = map_option (\<lambda>v. v + int (length (deps_of (p # rest) x))) (map_of ind x)"
      using td deps_of_not_key[OF tn]
      by (cases "map_of ind x") (auto simp: mi mi1 p deps_of_Cons)
  qed
  moreover have "map_of adj' = (\<lambda>d. map_option (\<lambda>ns. ns @ dependents (p # rest) d) (map_of adj d))"
    by (rule ext) (simp add: ma ma1 p dependents_def option.map_comp comp_def)
  ultimately show ?case by blast
qed

lemma map_of_init_in_degree:
  "map_of (init_in_degree tasks) t = (if t \<in> set (map fst tasks) then Some 0 else None)"
  by (induction tasks) (auto simp: init_in_degree_def)

lemma map_of_init_adjacency:
  "map_of (init_adjacency tasks) t = (if t \<in> set (map fst tasks) then Some [] else None)"
  by (induction tasks) (auto simp: init_adjacency_def)

lemma build_graph_initial:
  assumes "distinct (map fst tasks)"
    and "\<forall>(t, cfg) \<in> set tasks. set (get_depends_on cfg) \<subseteq> set (map fst tasks)"
  shows "\<exists>ind adj. build_graph tasks (init_in_degree tasks, init_adjacency tasks) = Inr (ind, adj)
       \<and> map_of ind = (\<lambda>t. if t \<in> set (map fst tasks) then Some (int (length (deps_of tasks t))) else None)
       \<and> map_of adj = (\<lambda>d. if d \<in> set (map fst tasks) then Some (dependents tasks d) else None)"
proof -
  have di: "dom (map_of (init_in_degree tasks)) = set (map fst tasks)"
    by (auto simp: map_of_init_in_degree dom_def)
  have da: "dom (map_of (init_adjacency tasks)) = set (map fst tasks)"
    by (auto simp: map_of_init_adjacency dom_def)
  from build_graph_spec[OF assms(1), of "init_in_degree tasks" "init_adjacency tasks"] assms(2) di da
  obtain ind adj where
    r: "build_graph tasks (init_in_degree tasks, init_adjacency tasks) = Inr (ind, adj)"
    and mi: "map_of ind = (\<lambda>t. map_option (\<lambda>v. v + int (length (deps_of tasks t))) (map_of (init_in_degree tasks) t))"
    and ma: "map_of adj = (\<lambda>d. map_option (\<lambda>ns. ns @ dependents tasks d) (map_of (init_adjacency tasks) d))"
    by auto
  have "map_of ind = (\<lambda>t. if t \<in> set (map fst tasks) then Some (int (length (deps_of tasks t))) else None)"
    by (rule ext) (simp add: mi map_of_init_in_degree)
  moreover have "map_of adj = (\<lambda>d. if d \<in> set (map fst tasks) then Some (dependents tasks d) else None)"
    by (rule ext) (simp add: ma map_of_init_adjacency)
  ultimately show ?thesis using r by blast
qed

lemma initial_queue_spec:
  "set (map fst ts) \<subseteq> dom (map_of ind) \<Longrightarrow>
     initial_queue ts ind = Inr (filter (\<lambda>t. map_of ind t = Some 0) (map fst ts))"
  by (induction ts) auto

lemma set_dependents: "set (dependents tasks d) \<subseteq> set (map fst tasks)"
  by (induction tasks) (auto simp: dependents_def)

lemma count_list_replicate: "count_list (replicate k x) y = (if x = y then k else 0)"
  by (induction k) auto

lemma count_dependents:
  "distinct (map fst tasks) \<Longrightarrow> count_list (dependents tasks u) n = count_list (deps_of tasks n) u"
proof (induction tasks)
  case Nil
  then show ?case by (simp add: dependents_def deps_of_def)
next
  case (Cons p tasks)
  obtain t cfg where p: "p = (t, cfg)" by (cases p)
  with Cons.prems have tn: "t \<notin> set (map fst tasks)" and d: "distinct (map fst tasks)" by auto
  have dep: "dependents ((t, cfg) # tasks) u
               = replicate (count_list (get_depends_on cfg) u) t @ dependents tasks u"
    by (simp add: dependents_def)
  have c0: "count_list (dependents tasks u) t = 0"
    using set_dependents[of tasks u] tn by (auto simp: count_list_0_iff)
  show ?case
    using Cons.IH[OF d] c0 deps_of_not_key[OF tn]
    by (auto simp: dep p deps_of_Cons count_list_replicate)
qed

definition pending :: "tasks \<Rightarrow> task_name list \<Rightarrow> task_name \<Rightarrow> nat" where
  "pending tasks result t = length (filter (\<lambda>d. d \<notin> set result) (deps_of tasks t))"

definition respects_dependencies :: "tasks \<Rightarrow> task_name list \<Rightarrow> bool" where
  "respects_dependencies tasks plan =
     (\<forall>i < length plan. set (deps_of tasks (plan ! i)) \<subseteq> set (take i plan))"

definition kahn_inv :: "tasks \<Rightarrow> in_degree \<Rightarrow> task_name list \<Rightarrow> task_name list \<Rightarrow> bool" where
  "kahn_inv tasks ind queue result =
     (distinct (result @ queue) \<and> set (result @ queue) \<subseteq> set (map fst tasks)
      \<and> map_of ind = (\<lambda>t. if t \<in> set (map fst tasks) then Some (int (pending tasks result t)) else None)
      \<and> (\<forall>t \<in> set (map fst tasks). t \<in> set (result @ queue) \<longleftrightarrow> pending tasks result t = 0)
      \<and> respects_dependencies tasks result)"

lemma respects_dependencies_snoc:
  "respects_dependencies tasks (res @ [u])
     \<longleftrightarrow> respects_dependencies tasks res \<and> set (deps_of tasks u) \<subseteq> set res"
  by (auto simp: respects_dependencies_def nth_append less_Suc_eq all_conj_distrib)

lemma pending_zero: "pending tasks result t = 0 \<longleftrightarrow> set (deps_of tasks t) \<subseteq> set result"
  by (auto simp: pending_def filter_empty_conv)

lemma filter_insert_count:
  "u \<notin> R \<Longrightarrow> length (filter (\<lambda>d. d \<notin> insert u R) ds) + count_list ds u = length (filter (\<lambda>d. d \<notin> R) ds)"
  by (induction ds) auto

lemma pending_snoc:
  "u \<notin> set result \<Longrightarrow>
     pending tasks (result @ [u]) t + count_list (deps_of tasks t) u = pending tasks result t"
  using filter_insert_count[of u "set result" "deps_of tasks t"] by (simp add: pending_def)

lemma kahn_step_inv:
  assumes inv: "kahn_inv tasks ind (u # queue) result"
    and dist: "distinct (map fst tasks)"
    and m': "map_of ind' = (\<lambda>t. map_option (\<lambda>d. d - int (count_list (dependents tasks u) t)) (map_of ind t))"
    and dn: "distinct new"
    and sn: "set new = {n \<in> set (dependents tasks u). \<exists>d. map_of ind n = Some d \<and> 1 \<le> d
                \<and> d \<le> int (count_list (dependents tasks u) n)}"
  shows "kahn_inv tasks ind' (queue @ new) (result @ [u])"
proof -
  let ?K = "set (map fst tasks)"
  from inv have d0: "distinct (result @ u # queue)" and s0: "set (result @ u # queue) \<subseteq> ?K"
    and m0: "map_of ind = (\<lambda>t. if t \<in> ?K then Some (int (pending tasks result t)) else None)"
    and i0: "\<forall>t \<in> ?K. t \<in> set (result @ u # queue) \<longleftrightarrow> pending tasks result t = 0"
    and r0: "respects_dependencies tasks result"
    by (simp_all add: kahn_inv_def)
  have uK: "u \<in> ?K" and ur: "u \<notin> set result" using d0 s0 by auto
  note ps = pending_snoc[OF ur, of tasks]
  have cd: "\<And>n. count_list (dependents tasks u) n = count_list (deps_of tasks n) u"
    by (rule count_dependents[OF dist])
  have newchar: "\<And>n. n \<in> set new \<longleftrightarrow> n \<in> ?K \<and> 1 \<le> pending tasks result n \<and> pending tasks (result @ [u]) n = 0"
  proof -
    fix n
    have inK: "n \<in> set (dependents tasks u) \<Longrightarrow> n \<in> ?K" using set_dependents[of tasks u] by blast
    have mem: "n \<in> set (dependents tasks u) \<longleftrightarrow> 0 < count_list (deps_of tasks n) u"
      using cd[of n] by (metis count_list_0_iff gr0I less_numeral_extra(3))
    show "n \<in> set new \<longleftrightarrow> n \<in> ?K \<and> 1 \<le> pending tasks result n \<and> pending tasks (result @ [u]) n = 0"
    proof (cases "n \<in> ?K")
      case False
      then show ?thesis using inK by (auto simp: sn)
    next
      case True
      have "n \<in> set new \<longleftrightarrow> 0 < count_list (deps_of tasks n) u \<and> 1 \<le> pending tasks result n
              \<and> pending tasks result n \<le> count_list (deps_of tasks n) u"
        using True mem by (auto simp: sn m0 cd)
      with ps[of n] show ?thesis using True by auto
    qed
  qed
  have m1: "map_of ind' = (\<lambda>t. if t \<in> ?K then Some (int (pending tasks (result @ [u]) t)) else None)"
  proof (rule ext)
    fix t
    show "map_of ind' t = (if t \<in> ?K then Some (int (pending tasks (result @ [u]) t)) else None)"
      using ps[of t] by (simp add: m' m0 cd)
  qed
  have disj: "\<And>n. n \<in> set new \<Longrightarrow> n \<notin> set (result @ u # queue)"
    using i0 newchar by fastforce
  have d1: "distinct ((result @ [u]) @ queue @ new)" using d0 dn disj by auto
  have s1: "set ((result @ [u]) @ queue @ new) \<subseteq> ?K" using s0 newchar by auto
  have i1: "\<forall>t \<in> ?K. t \<in> set ((result @ [u]) @ queue @ new) \<longleftrightarrow> pending tasks (result @ [u]) t = 0"
  proof
    fix t assume tK: "t \<in> ?K"
    have old: "t \<in> set (result @ u # queue) \<longleftrightarrow> pending tasks result t = 0" using i0 tK by blast
    show "t \<in> set ((result @ [u]) @ queue @ new) \<longleftrightarrow> pending tasks (result @ [u]) t = 0"
      using old newchar[of t] tK ps[of t] by auto
  qed
  have "pending tasks result u = 0" using i0 uK by auto
  then have "set (deps_of tasks u) \<subseteq> set result" by (simp add: pending_zero)
  with r0 have r1: "respects_dependencies tasks (result @ [u])"
    by (simp add: respects_dependencies_snoc)
  show ?thesis unfolding kahn_inv_def using d1 s1 m1 i1 r1 by blast
qed

lemma kahn_loop_inv:
  assumes dist: "distinct (map fst tasks)"
  shows "\<lbrakk>map_of adj = (\<lambda>d. if d \<in> set (map fst tasks) then Some (dependents tasks d) else None);
          kahn_inv tasks ind queue result\<rbrakk> \<Longrightarrow>
     \<exists>final ind'. kahn_loop adj ind queue result = Inr final \<and> kahn_inv tasks ind' [] final"
proof (induction adj ind queue result rule: kahn_loop.induct)
  case (1 adj ind result)
  then show ?case by auto
next
  case (2 adj ind u queue result)
  note adj = "2.prems"(1) and inv = "2.prems"(2)
  from inv have uK: "u \<in> set (map fst tasks)"
    and m0: "map_of ind = (\<lambda>t. if t \<in> set (map fst tasks) then Some (int (pending tasks result t)) else None)"
    by (simp_all add: kahn_inv_def)
  have a: "map_of adj u = Some (dependents tasks u)" using adj uK by simp
  have sub: "set (dependents tasks u) \<subseteq> dom (map_of ind)"
    using set_dependents[of tasks u] by (auto simp: m0 dom_def)
  from relax_spec[OF sub, of queue] obtain ind' new where
    r: "relax (dependents tasks u) ind queue = Inr (ind', queue @ new)"
    and m': "map_of ind' = (\<lambda>t. map_option (\<lambda>d. d - int (count_list (dependents tasks u) t)) (map_of ind t))"
    and dn: "distinct new"
    and sn: "set new = {n \<in> set (dependents tasks u). \<exists>d. map_of ind n = Some d \<and> 1 \<le> d
                \<and> d \<le> int (count_list (dependents tasks u) n)}"
    by blast
  have inv': "kahn_inv tasks ind' (queue @ new) (result @ [u])"
    by (rule kahn_step_inv[OF inv dist m' dn sn])
  from "2.IH"[OF a r refl adj inv'] obtain final ind'' where
    "kahn_loop adj ind' (queue @ new) (result @ [u]) = Inr final" "kahn_inv tasks ind'' [] final"
    by blast
  then show ?case using a r by auto
qed

lemma no_sink_gives_cycle:
  assumes "finite M" and "M \<noteq> {}" and "\<forall>x\<in>M. \<exists>y\<in>M. (x, y) \<in> E"
  shows "\<exists>x. (x, x) \<in> E\<^sup>+"
proof (rule ccontr)
  assume "\<not> (\<exists>x. (x, x) \<in> E\<^sup>+)"
  then have ac: "acyclic E" by (simp add: acyclic_def)
  let ?r = "{(y, x). (x, y) \<in> E \<and> x \<in> M \<and> y \<in> M}"
  have "?r \<subseteq> M \<times> M" by auto
  then have fin: "finite ?r" using assms(1) by (meson finite_SigmaI finite_subset)
  have "?r \<subseteq> E\<inverse>" by auto
  then have "acyclic ?r" using ac by (meson acyclic_converse acyclic_subset)
  with fin have "wf ?r" by (rule finite_acyclic_wf)
  from assms(2) obtain a where "a \<in> M" by blast
  with \<open>wf ?r\<close> obtain z where zM: "z \<in> M" and min: "\<And>y. (y, z) \<in> ?r \<Longrightarrow> y \<notin> M"
    by (rule wfE_min) blast
  from assms(3) zM obtain y where "y \<in> M" "(z, y) \<in> E" by blast
  with zM min[of y] show False by blast
qed

lemma deps_of_closed:
  assumes "\<forall>(t, cfg) \<in> set tasks. set (get_depends_on cfg) \<subseteq> set (map fst tasks)"
    and "d \<in> set (deps_of tasks t)"
  shows "d \<in> set (map fst tasks)"
proof -
  from assms(2) have "(t, d) \<in> dep_edges tasks" by (simp add: dep_edges_def)
  from dep_edges_key[OF this] assms(1) show ?thesis by blast
qed

lemma kahn_final_complete:
  assumes inv: "kahn_inv tasks ind [] final"
    and closed: "\<forall>(t, cfg) \<in> set tasks. set (get_depends_on cfg) \<subseteq> set (map fst tasks)"
    and acyc: "\<not> has_dep_cycle tasks"
  shows "set final = set (map fst tasks)"
proof (rule ccontr)
  let ?K = "set (map fst tasks)"
  let ?M = "?K - set final"
  assume ne: "set final \<noteq> ?K"
  from inv have sub: "set final \<subseteq> ?K"
    and i: "\<forall>t \<in> ?K. t \<in> set final \<longleftrightarrow> pending tasks final t = 0"
    by (simp_all add: kahn_inv_def)
  have M1: "?M \<noteq> {}" using ne sub by blast
  have M2: "finite ?M" by simp
  have M3: "\<forall>x\<in>?M. \<exists>y\<in>?M. (x, y) \<in> dep_edges tasks"
  proof
    fix x assume x: "x \<in> ?M"
    with i have "pending tasks final x \<noteq> 0" by blast
    then obtain d where d: "d \<in> set (deps_of tasks x)" "d \<notin> set final"
      by (auto simp: pending_zero)
    with deps_of_closed[OF closed d(1)] show "\<exists>y\<in>?M. (x, y) \<in> dep_edges tasks"
      by (auto simp: dep_edges_def)
  qed
  have "\<exists>x. (x, x) \<in> (dep_edges tasks)\<^sup>+" by (rule no_sink_gives_cycle[OF M2 M1 M3])
  with acyc show False by (simp add: has_dep_cycle_def)
qed

lemma kahn_order_correct:
  assumes dist: "distinct (map fst tasks)"
    and closed: "\<forall>(t, cfg) \<in> set tasks. set (get_depends_on cfg) \<subseteq> set (map fst tasks)"
    and acyc: "\<not> has_dep_cycle tasks"
  shows "\<exists>plan. kahn_order tasks = Inr plan \<and> distinct plan \<and> set plan = set (map fst tasks)
           \<and> respects_dependencies tasks plan"
proof -
  let ?K = "set (map fst tasks)"
  from build_graph_initial[OF dist closed] obtain ind adj where
    b: "build_graph tasks (init_in_degree tasks, init_adjacency tasks) = Inr (ind, adj)"
    and mi: "map_of ind = (\<lambda>t. if t \<in> ?K then Some (int (length (deps_of tasks t))) else None)"
    and ma: "map_of adj = (\<lambda>d. if d \<in> ?K then Some (dependents tasks d) else None)"
    by blast
  let ?q = "filter (\<lambda>t. map_of ind t = Some 0) (map fst tasks)"
  have q: "initial_queue tasks ind = Inr ?q"
    by (rule initial_queue_spec) (auto simp: mi dom_def)
  have p0: "\<And>t. pending tasks [] t = length (deps_of tasks t)" by (simp add: pending_def)
  have inv0: "kahn_inv tasks ind ?q []"
    unfolding kahn_inv_def
    using dist by (auto simp: mi p0 respects_dependencies_def)
  from kahn_loop_inv[OF dist ma inv0] obtain final ind' where
    k: "kahn_loop adj ind ?q [] = Inr final" and invf: "kahn_inv tasks ind' [] final"
    by blast
  have "kahn_order tasks = Inr final" by (simp add: kahn_order_def b q k)
  moreover have "distinct final" "respects_dependencies tasks final"
    using invf by (simp_all add: kahn_inv_def)
  moreover have "set final = ?K" by (rule kahn_final_complete[OF invf closed acyc])
  ultimately show ?thesis by blast
qed

lemma respects_dependencies_index:
  "respects_dependencies tasks plan \<Longrightarrow> i < length plan \<Longrightarrow> d \<in> set (deps_of tasks (plan ! i))
     \<Longrightarrow> \<exists>j<i. plan ! j = d"
proof -
  assume "respects_dependencies tasks plan" "i < length plan" "d \<in> set (deps_of tasks (plan ! i))"
  then have "d \<in> set (take i plan)" by (auto simp: respects_dependencies_def)
  then obtain j where "j < length (take i plan)" "take i plan ! j = d" by (auto simp: in_set_conv_nth)
  then show ?thesis by (intro exI[of _ j]) auto
qed


section \<open>Example graphs\<close>

lemma rank_acyclic:
  fixes f :: "task_name \<Rightarrow> nat"
  assumes "\<And>t d. (t, d) \<in> dep_edges tasks \<Longrightarrow> f d < f t"
  shows "\<not> has_dep_cycle tasks"
proof -
  have "acyclic (dep_edges tasks)"
    by (rule acyclicI_order[where f = f]) (use assms in auto)
  then show ?thesis by (simp add: has_dep_cycle_def acyclic_def)
qed

text \<open>
  A chain of \<open>n + 1\<close> tasks \<^verbatim>\<open>tt\<close>, \<^verbatim>\<open>ttt\<close>, \<dots>, each depending on the one before it; the
  first one depends on the names \<open>bottom\<close>. \<open>chain_order\<close> lists the names from the
  last task of the chain down to the first.
\<close>

definition chain_name :: "nat \<Rightarrow> task_name" where
  "chain_name i = replicate (i + 2) CHR ''t''"

definition chain_tasks :: "task_name list \<Rightarrow> nat \<Rightarrow> tasks" where
  "chain_tasks bottom n =
     map (\<lambda>i. (chain_name i, plain_task (if i = 0 then bottom else [chain_name (i - 1)]))) [0..<Suc n]"

definition chain_order :: "nat \<Rightarrow> task_name list" where
  "chain_order n = rev (map chain_name [0..<Suc n])"

lemma chain_name_eq [simp]: "chain_name i = chain_name j \<longleftrightarrow> i = j"
proof
  assume "chain_name i = chain_name j"
  then have "length (chain_name i) = length (chain_name j)" by simp
  then show "i = j" by (simp add: chain_name_def)
qed simp

lemma map_of_indexed:
  assumes "\<And>i j. f i = f j \<Longrightarrow> i = j" and "j \<in> set xs"
  shows "map_of (map (\<lambda>i. (f i, g i)) xs) (f j) = Some (g j)"
  using assms(2) by (induction xs) (auto dest: assms(1))

lemma map_of_chain_tasks:
  assumes "j \<le> n"
  shows "map_of (chain_tasks bottom n) (chain_name j)
      = Some (plain_task (if j = 0 then bottom else [chain_name (j - 1)]))"
proof -
  have mem: "j \<in> set [0..<Suc n]" using assms by (simp del: upt_Suc)
  show ?thesis
    unfolding chain_tasks_def by (rule map_of_indexed[where f = chain_name, OF _ mem]) simp
qed

lemma chain_member:
  assumes "(t, cfg) \<in> set (chain_tasks bottom n)"
  shows "\<exists>i \<le> n. t = chain_name i \<and> cfg = plain_task (if i = 0 then bottom else [chain_name (i - 1)])"
proof -
  from assms obtain i where "i \<in> set [0..<Suc n]" "t = chain_name i"
    "cfg = plain_task (if i = 0 then bottom else [chain_name (i - 1)])"
    unfolding chain_tasks_def set_map by blast
  moreover from this have "i \<le> n" by (simp del: upt_Suc)
  ultimately show ?thesis by blast
qed

lemma deps_of_chain_tasks:
  "0 < j \<Longrightarrow> j \<le> n \<Longrightarrow> deps_of (chain_tasks bottom n) (chain_name j) = [chain_name (j - 1)]"
  by (simp add: deps_of_def map_of_chain_tasks)

lemma chain_keys: "map fst (chain_tasks bottom n) = map chain_name [0..<Suc n]"
  by (simp add: chain_tasks_def comp_def)

lemma chain_distinct: "distinct (map fst (chain_tasks bottom n))"
  unfolding chain_keys by (simp add: distinct_map inj_on_def del: upt_Suc)

lemma chain_order_keys: "set (chain_order n) = set (map fst (chain_tasks bottom n))"
  unfolding chain_keys by (simp add: chain_order_def del: upt_Suc)

lemma chain_edge:
  assumes "(t, d) \<in> dep_edges (chain_tasks bottom n)"
  shows "\<exists>i \<le> n. t = chain_name i \<and> (if i = 0 then d \<in> set bottom else d = chain_name (i - 1))"
proof -
  from dep_edges_key[OF assms] obtain cfg where
    m: "(t, cfg) \<in> set (chain_tasks bottom n)" and d: "d \<in> set (get_depends_on cfg)" by blast
  from chain_member[OF m] obtain i where "i \<le> n" "t = chain_name i"
    "cfg = plain_task (if i = 0 then bottom else [chain_name (i - 1)])" by blast
  with d show ?thesis by (intro exI[of _ i]) (auto split: if_splits)
qed

lemma chain_closed:
  assumes "set bottom \<subseteq> set (map fst (chain_tasks bottom n))"
  shows "check_existence (set (map fst (chain_tasks bottom n))) (chain_tasks bottom n) = None"
proof -
  have "set (get_depends_on cfg) \<subseteq> set (map fst (chain_tasks bottom n))"
    if "(t, cfg) \<in> set (chain_tasks bottom n)" for t cfg
  proof
    fix d assume d: "d \<in> set (get_depends_on cfg)"
    from chain_member[OF that] obtain i where i: "i \<le> n"
      "cfg = plain_task (if i = 0 then bottom else [chain_name (i - 1)])" by blast
    show "d \<in> set (map fst (chain_tasks bottom n))"
    proof (cases "i = 0")
      case True
      with d i assms show ?thesis by auto
    next
      case False
      with d i have "d = chain_name (i - 1)" by simp
      moreover have "i - 1 \<in> set [0..<Suc n]" using i(1) by (simp del: upt_Suc)
      ultimately show ?thesis unfolding chain_keys by (simp del: upt_Suc)
    qed
  qed
  then show ?thesis unfolding check_existence_None by blast
qed

lemma chain_acyclic:
  assumes "\<forall>d \<in> set bottom. length d < 2"
  shows "\<not> has_dep_cycle (chain_tasks bottom n)"
proof (rule rank_acyclic)
  fix t d assume "(t, d) \<in> dep_edges (chain_tasks bottom n)"
  from chain_edge[OF this] assms show "length d < length t"
    by (auto simp: chain_name_def split: if_splits)
qed

text \<open>
  Started at the last task of a chain, \<^verbatim>\<open>has_cycle\<close> nests one call per task: a chain with
  more tasks than the interpreter allows nested calls ends in \<^verbatim>\<open>RecursionError\<close>.
\<close>

lemma has_cycle_chain_overflow:
  "m \<le> j \<Longrightarrow> j \<le> n \<Longrightarrow> \<forall>i \<le> j. chain_name i \<notin> V \<Longrightarrow>
     has_cycle m (chain_tasks bottom n) (chain_name j) (V, R) = None"
proof (induction m arbitrary: j V R)
  case 0
  then show ?case by simp
next
  case (Suc m)
  then have j: "0 < j" "j \<le> n" "m \<le> j - 1" "j - 1 \<le> n" by simp_all
  have fresh: "\<forall>i \<le> j - 1. chain_name i \<notin> insert (chain_name j) V"
    using Suc.prems(3) j(1) by auto
  have "has_cycle m (chain_tasks bottom n) (chain_name (j - 1))
          (insert (chain_name j) V, insert (chain_name j) R) = None"
    by (rule Suc.IH[OF j(3,4) fresh])
  moreover have "chain_name (j - 1) \<notin> insert (chain_name j) V" using fresh by simp
  ultimately show ?case by (simp add: deps_of_chain_tasks[OF j(1,2)])
qed

lemma validate_chain_overflow:
  "validate_dependency_graph n (chain_order n) (chain_tasks bottom n) = Inl RecursionError"
proof -
  have o: "chain_order n = chain_name n # rev (map chain_name [0..<n])"
    by (simp add: chain_order_def)
  have "has_cycle n (chain_tasks bottom n) (chain_name n) ({}, {}) = None"
    by (rule has_cycle_chain_overflow) simp_all
  then show ?thesis by (simp add: validate_dependency_graph_def o)
qed

lemma execute_pipeline_validation_error:
  assumes "validate_dependency_graph frames iter_order tasks = Inl e"
  shows "topological_sort frames iter_order tasks st = Inl e"
    and "execute_pipeline frames logger iter_order spark tasks executors st =
           (if is_TaskDependencyError e then Returned False (ErrorDict e) st else Raised e st)"
  using assms by (simp_all add: topological_sort_def execute_pipeline_def)

section \<open>Topological sort of a valid graph\<close>

lemma closed_graph_nodes:
  assumes "\<forall>(t, cfg) \<in> set tasks. set (get_depends_on cfg) \<subseteq> set (map fst tasks)"
    and "set iter_order \<subseteq> set (map fst tasks)"
  shows "card (dfs_nodes iter_order tasks) \<le> length tasks"
proof -
  have "set (concat (map (\<lambda>(task, config). get_depends_on config) tasks)) \<subseteq> set (map fst tasks)"
    using assms(1) by auto
  then have "dfs_nodes iter_order tasks = set (map fst tasks)"
    using assms(2) unfolding dfs_nodes_def by blast
  then show ?thesis using card_length[of "map fst tasks"] by simp
qed

lemma topological_sort_returns:
  assumes "topological_sort frames iter_order tasks st = Inr (plan, st0)"
    and "distinct (map fst tasks)" and "set (map fst tasks) \<subseteq> set iter_order"
  shows "distinct plan" and "set plan = set (map fst tasks)" and "respects_dependencies tasks plan"
    and "st0 = st\<lparr>execution_order := record_order 1 plan (execution_order st)\<rparr>"
proof -
  from assms(1) obtain ok where v: "validate_dependency_graph frames iter_order tasks = Inr ok"
    and k: "kahn_order tasks = Inr plan"
    and s: "st0 = st\<lparr>execution_order := record_order 1 plan (execution_order st)\<rparr>"
    by (auto simp: topological_sort_def split: sum.splits)
  note a = validate_accepts[OF v assms(3)]
  from kahn_order_correct[OF assms(2) a(2) a(1)] k
  show "distinct plan" and "set plan = set (map fst tasks)" and "respects_dependencies tasks plan"
    by simp_all
  from s show "st0 = st\<lparr>execution_order := record_order 1 plan (execution_order st)\<rparr>" .
qed

text \<open>
  C4, as stated, does not hold: \<^verbatim>\<open>topological_sort\<close> first calls
  \<^verbatim>\<open>validate_dependency_graph\<close>, whose search is recursive. The chain of 1001 tasks, each
  depending on the one before it, is acyclic and names only its own tasks; when the
  interpreter allows 1000 nested calls and the iteration over the set of names starts
  at the last task of the chain, \<^verbatim>\<open>topological_sort\<close> raises \<^verbatim>\<open>RecursionError\<close> and returns
  no list.
\<close>

theorem topological_sort_deep_chain:
  "distinct (map fst (chain_tasks [] 1000))
   \<and> \<not> has_dep_cycle (chain_tasks [] 1000)
   \<and> check_existence (set (map fst (chain_tasks [] 1000))) (chain_tasks [] 1000) = None
   \<and> set (chain_order 1000) = set (map fst (chain_tasks [] 1000))
   \<and> length (chain_tasks [] 1000) = 1001
   \<and> topological_sort 1000 (chain_order 1000) (chain_tasks [] 1000) (new_engine (0::nat))
       = Inl RecursionError"
proof -
  have c: "check_existence (set (map fst (chain_tasks [] 1000))) (chain_tasks [] 1000) = None"
    by (rule chain_closed) simp
  have l: "length (chain_tasks [] 1000) = 1001" by (simp add: chain_tasks_def)
  show ?thesis
    using chain_distinct[of "[]" 1000] chain_acyclic[of "[]" 1000] c
      chain_order_keys[of 1000 "[]"] l
      execute_pipeline_validation_error(1)[OF validate_chain_overflow[of 1000 "[]"],
        of "new_engine (0::nat)"]
    by simp
qed

text \<open>
  C4, amended. For a task set with distinct names whose dependency graph has no cycle,
  whose dependencies all name tasks of the set, and which has no more tasks than the
  interpreter allows nested calls of \<^verbatim>\<open>has_cycle\<close>, \<^verbatim>\<open>topological_sort\<close> returns a list
  in which every task name occurs exactly once and every task occurs strictly after
  each of its dependencies, whatever the iteration order of the set of names.
\<close>

theorem topological_sort_valid_graph:
  assumes "distinct (map fst tasks)"
    and "\<forall>(t, cfg) \<in> set tasks. set (get_depends_on cfg) \<subseteq> set (map fst tasks)"
    and "\<not> has_dep_cycle tasks"
    and "set iter_order = set (map fst tasks)"
    and "length tasks \<le> frames"
  shows "\<exists>plan st'. topological_sort frames iter_order tasks st = Inr (plan, st')
           \<and> distinct plan \<and> set plan = set (map fst tasks) \<and> length plan = length tasks
           \<and> (\<forall>i < length plan. \<forall>d \<in> set (deps_of tasks (plan ! i)). \<exists>j < i. plan ! j = d)"
proof -
  have "card (dfs_nodes iter_order tasks) \<le> length tasks"
    by (rule closed_graph_nodes[OF assms(2)]) (simp add: assms(4))
  with assms(5) have n: "card (dfs_nodes iter_order tasks) \<le> frames" by simp
  have v: "validate_dependency_graph frames iter_order tasks = Inr True"
    using validate_acyclic[OF assms(3) n] check_existence_None[of "set (map fst tasks)" tasks]
      assms(2) by simp
  from kahn_order_correct[OF assms(1,2,3)] obtain plan where
    k: "kahn_order tasks = Inr plan" and d: "distinct plan" and s: "set plan = set (map fst tasks)"
    and r: "respects_dependencies tasks plan" by blast
  have "length plan = length (map fst tasks)"
    using d s assms(1) by (metis distinct_card)
  then have l: "length plan = length tasks" by simp
  have "\<forall>i < length plan. \<forall>d \<in> set (deps_of tasks (plan ! i)). \<exists>j < i. plan ! j = d"
    using respects_dependencies_index[OF r] by blast
  then show ?thesis using v k d s l by (simp add: topological_sort_def)
qed

definition report_tasks :: tasks where
  "report_tasks = [(''report'', plain_task [''clean'', ''load'']),
                   (''clean'', plain_task [''load'']),
                   (''load'', plain_task [])]"

lemma report_tasks_acyclic: "\<not> has_dep_cycle report_tasks"
proof (rule rank_acyclic)
  fix t d assume "(t, d) \<in> dep_edges report_tasks"
  then show "length d < length t"
    by (auto simp: dep_edges_def deps_of_def report_tasks_def split: if_splits)
qed

theorem topological_sort_valid_graph_witness:
  "distinct (map fst report_tasks) \<and> \<not> has_dep_cycle report_tasks
   \<and> length report_tasks \<le> 3
   \<and> (\<exists>st'. topological_sort 3 [''clean'', ''report'', ''load''] report_tasks (new_engine (0::nat))
          = Inr ([''load'', ''clean'', ''report''], st'))
   \<and> (\<exists>plan st'. topological_sort 3 [''clean'', ''report'', ''load''] report_tasks (new_engine (0::nat))
          = Inr (plan, st')
        \<and> distinct plan \<and> set plan = set (map fst report_tasks) \<and> length plan = length report_tasks
        \<and> (\<forall>i < length plan. \<forall>d \<in> set (deps_of report_tasks (plan ! i)). \<exists>j < i. plan ! j = d))"
proof -
  have h1: "distinct (map fst report_tasks)" by (simp add: report_tasks_def)
  have h2: "\<forall>(t, cfg) \<in> set report_tasks. set (get_depends_on cfg) \<subseteq> set (map fst report_tasks)"
    by (simp add: report_tasks_def)
  note h3 = report_tasks_acyclic
  have h4: "set [''clean'', ''report'', ''load''] = set (map fst report_tasks)"
    by (auto simp: report_tasks_def)
  have h5: "length report_tasks \<le> 3" by (simp add: report_tasks_def)
  note main = topological_sort_valid_graph[OF h1 h2 h3 h4 h5, of "new_engine (0::nat)"]
  have k: "kahn_order report_tasks = Inr [''load'', ''clean'', ''report'']"
    by (simp add: kahn_order_def report_tasks_def init_in_degree_def init_adjacency_def)
  from main obtain plan st' where
    t: "topological_sort 3 [''clean'', ''report'', ''load''] report_tasks (new_engine (0::nat))
          = Inr (plan, st')" by blast
  with k have "plan = [''load'', ''clean'', ''report'']"
    by (auto simp: topological_sort_def split: sum.splits)
  with t have "\<exists>st'. topological_sort 3 [''clean'', ''report'', ''load''] report_tasks (new_engine (0::nat))
          = Inr ([''load'', ''clean'', ''report''], st')" by blast
  with h1 h3 h5 main show ?thesis by blast
qed

section \<open>Invalid graphs\<close>

definition loop_tasks :: tasks where
  "loop_tasks = [(''A'', plain_task [''B'']), (''B'', plain_task [''B''])]"

lemma dep_edges_loop_tasks: "dep_edges loop_tasks = {(''A'', ''B''), (''B'', ''B'')}"
  by (auto simp: dep_edges_def deps_of_def loop_tasks_def split: if_splits)

lemma chain_self_loop: "has_dep_cycle (chain_tasks [chain_name 0] n)"
proof -
  have "(chain_name 0, chain_name 0) \<in> dep_edges (chain_tasks [chain_name 0] n)"
    by (simp add: dep_edges_def deps_of_def map_of_chain_tasks)
  then show ?thesis unfolding has_dep_cycle_def by blast
qed

text \<open>
  C5, as stated, does not hold. In the task set \<^verbatim>\<open>{A: depends_on [B], B: depends_on [B]}\<close>
  the only cycle is the self-dependency of \<^verbatim>\<open>B\<close>. When the iteration over the set of names
  reaches \<^verbatim>\<open>A\<close> first, the search started at \<^verbatim>\<open>A\<close> finds the cycle and the error names
  \<^verbatim>\<open>A\<close>, which lies on no cycle. And in the chain of 1001 tasks whose first task depends
  on itself, with 1000 nested calls allowed and the iteration starting at the last task
  of the chain, the search ends in \<^verbatim>\<open>RecursionError\<close> before it reaches the cycle: the
  error is not the cycle error.
\<close>

theorem cycle_error_names_task_off_cycle:
  "(''B'', ''B'') \<in> (dep_edges loop_tasks)\<^sup>+
   \<and> (''A'', ''A'') \<notin> (dep_edges loop_tasks)\<^sup>+
   \<and> validate_dependency_graph 1000 [''A'', ''B''] loop_tasks = Inl (CircularDependency ''A'')
   \<and> has_dep_cycle (chain_tasks [chain_name 0] 1000)
   \<and> validate_dependency_graph 1000 (chain_order 1000) (chain_tasks [chain_name 0] 1000)
       = Inl RecursionError"
proof -
  have 1: "(''B'', ''B'') \<in> (dep_edges loop_tasks)\<^sup>+"
    by (rule r_into_trancl) (simp add: dep_edges_loop_tasks)
  have 2: "(''A'', ''A'') \<notin> (dep_edges loop_tasks)\<^sup>+"
  proof
    assume "(''A'', ''A'') \<in> (dep_edges loop_tasks)\<^sup>+"
    then obtain z where "(z, ''A'') \<in> dep_edges loop_tasks" by (auto dest: tranclD2)
    then show False by (simp add: dep_edges_loop_tasks)
  qed
  have "check_cycles 3 loop_tasks [''A'', ''B''] ({}, {}) = Some (Inl (CircularDependency ''A''))"
    by (simp add: loop_tasks_def deps_of_def eval_nat_numeral)
  from check_cycles_more_frames[OF this, of 997]
  have 3: "validate_dependency_graph 1000 [''A'', ''B''] loop_tasks = Inl (CircularDependency ''A'')"
    by (simp add: validate_dependency_graph_def)
  from 1 2 3 chain_self_loop[of 1000] validate_chain_overflow[of 1000 "[chain_name 0]"]
  show ?thesis by simp
qed

text \<open>
  C5, amended. For every task set whose \<^verbatim>\<open>depends_on\<close> edges contain a cycle and in which
  no more names occur (as tasks or as dependencies) than the interpreter allows nested
  calls of \<^verbatim>\<open>has_cycle\<close>, \<^verbatim>\<open>validate_dependency_graph\<close> raises the cycle error, and the
  task it names is the first task, in the iteration order of the set of names, from
  which a cycle can be reached along \<^verbatim>\<open>depends_on\<close> edges (it need not lie on the
  cycle). \<^verbatim>\<open>topological_sort\<close> raises the same error, and \<^verbatim>\<open>execute_pipeline\<close> returns
  \<^verbatim>\<open>(False, {"error": ...})\<close> with the engine and the world as they were before the
  call: no executor has been invoked.
\<close>

theorem cycle_error_names_first_task_reaching_cycle:
  assumes "has_dep_cycle tasks" and "set iter_order = set (map fst tasks)"
    and "card (dfs_nodes iter_order tasks) \<le> frames"
  shows "\<exists>pre task post. iter_order = pre @ task # post
           \<and> reaches_cycle tasks task \<and> (\<forall>p \<in> set pre. \<not> reaches_cycle tasks p)
           \<and> validate_dependency_graph frames iter_order tasks = Inl (CircularDependency task)
           \<and> topological_sort frames iter_order tasks st = Inl (CircularDependency task)
           \<and> execute_pipeline frames logger iter_order spark tasks executors st
               = Returned False (ErrorDict (CircularDependency task)) st"
proof -
  have sub: "set (map fst tasks) \<subseteq> set iter_order" using assms(2) by simp
  from validate_cyclic[OF assms(1) sub assms(3)] obtain pre task post where
    v: "validate_dependency_graph frames iter_order tasks = Inl (CircularDependency task)"
    and i: "iter_order = pre @ task # post" and r: "reaches_cycle tasks task"
    and p: "\<forall>p \<in> set pre. \<not> reaches_cycle tasks p" by blast
  have e: "is_TaskDependencyError (CircularDependency task)" by (simp add: is_TaskDependencyError_def)
  have ts: "topological_sort frames iter_order tasks st = Inl (CircularDependency task)"
    by (rule execute_pipeline_validation_error(1)[OF v])
  have ep: "execute_pipeline frames logger iter_order spark tasks executors st
               = Returned False (ErrorDict (CircularDependency task)) st"
    using execute_pipeline_validation_error(2)[OF v] e by simp
  show ?thesis
    using i r p v ts ep by blast
qed

definition ring_tasks :: tasks where
  "ring_tasks = [(''A'', plain_task []), (''B'', plain_task [''C'']), (''C'', plain_task [''B''])]"

theorem cycle_error_names_first_task_reaching_cycle_witness:
  "has_dep_cycle ring_tasks \<and> set [''A'', ''C'', ''B''] = set (map fst ring_tasks)
   \<and> card (dfs_nodes [''A'', ''C'', ''B''] ring_tasks) \<le> 3
   \<and> validate_dependency_graph 3 [''A'', ''C'', ''B''] ring_tasks = Inl (CircularDependency ''C'')
   \<and> (\<exists>pre task post. [''A'', ''C'', ''B''] = pre @ task # post
           \<and> reaches_cycle ring_tasks task \<and> (\<forall>p \<in> set pre. \<not> reaches_cycle ring_tasks p)
           \<and> validate_dependency_graph 3 [''A'', ''C'', ''B''] ring_tasks = Inl (CircularDependency task)
           \<and> topological_sort 3 [''A'', ''C'', ''B''] ring_tasks (new_engine (0::nat))
               = Inl (CircularDependency task)
           \<and> execute_pipeline 3 quiet_logger [''A'', ''C'', ''B''] idle_spark ring_tasks Map.empty
                 (new_engine (0::nat))
               = Returned False (ErrorDict (CircularDependency task)) (new_engine 0))"
proof -
  have e: "dep_edges ring_tasks = {(''B'', ''C''), (''C'', ''B'')}"
    by (auto simp: dep_edges_def deps_of_def ring_tasks_def split: if_splits)
  have "(''B'', ''B'') \<in> (dep_edges ring_tasks)\<^sup>+"
    by (rule trancl_into_trancl[of _ "''C''"], rule r_into_trancl) (simp_all add: e)
  then have h1: "has_dep_cycle ring_tasks" by (auto simp: has_dep_cycle_def)
  have h2: "set [''A'', ''C'', ''B''] = set (map fst ring_tasks)" by (auto simp: ring_tasks_def)
  have "dfs_nodes [''A'', ''C'', ''B''] ring_tasks = {''A'', ''B'', ''C''}"
    by (auto simp: dfs_nodes_def ring_tasks_def)
  then have h3: "card (dfs_nodes [''A'', ''C'', ''B''] ring_tasks) \<le> 3" by simp
  have v: "validate_dependency_graph 3 [''A'', ''C'', ''B''] ring_tasks = Inl (CircularDependency ''C'')"
    by (simp add: validate_dependency_graph_def ring_tasks_def deps_of_def eval_nat_numeral)
  from h1 h2 h3 v
    cycle_error_names_first_task_reaching_cycle[OF h1 h2 h3, of "new_engine (0::nat)" quiet_logger
      idle_spark Map.empty]
  show ?thesis by blast
qed

text \<open>
  C8, as stated, does not hold. The chain of 1001 tasks whose first task depends on the
  undeclared name \<^verbatim>\<open>x\<close> has no cycle; with 1000 nested calls allowed and the iteration
  starting at the last task of the chain, the cycle search, which runs before the
  check for undeclared names, ends in \<^verbatim>\<open>RecursionError\<close>. That is no
  \<^verbatim>\<open>TaskDependencyError\<close>, so \<^verbatim>\<open>execute_pipeline\<close> does not return a failure result: the
  exception leaves it.
\<close>

theorem unknown_dependency_deep_chain:
  "\<not> has_dep_cycle (chain_tasks [''x''] 1000)
   \<and> map_of (chain_tasks [''x''] 1000) (chain_name 0) = Some (plain_task [''x''])
   \<and> ''x'' \<notin> set (map fst (chain_tasks [''x''] 1000))
   \<and> validate_dependency_graph 1000 (chain_order 1000) (chain_tasks [''x''] 1000) = Inl RecursionError
   \<and> execute_pipeline 1000 quiet_logger (chain_order 1000) idle_spark (chain_tasks [''x''] 1000)
         Map.empty (new_engine 0)
       = Raised RecursionError (new_engine 0)"
proof -
  have 1: "\<not> has_dep_cycle (chain_tasks [''x''] 1000)" by (rule chain_acyclic) simp
  have 2: "map_of (chain_tasks [''x''] 1000) (chain_name 0) = Some (plain_task [''x''])"
    using map_of_chain_tasks[of 0 1000 "[''x'']"] by simp
  have 3: "''x'' \<notin> set (map fst (chain_tasks [''x''] 1000))"
  proof
    assume "''x'' \<in> set (map fst (chain_tasks [''x''] 1000))"
    then obtain i where "''x'' = chain_name i" unfolding chain_keys by auto
    then have "length ''x'' = length (chain_name i)" by simp
    then show False by (simp add: chain_name_def)
  qed
  note 4 = validate_chain_overflow[of 1000 "[''x'']"]
  have 5: "execute_pipeline 1000 quiet_logger (chain_order 1000) idle_spark (chain_tasks [''x''] 1000)
         Map.empty (new_engine 0) = Raised RecursionError (new_engine 0)"
    using execute_pipeline_validation_error(2)[OF 4] by (simp add: is_TaskDependencyError_def)
  from 1 2 3 4 5 show ?thesis by simp
qed

text \<open>
  C8, amended. For every task set without a dependency cycle in which some task's
  \<^verbatim>\<open>depends_on\<close> names a task that is not in the set, and in which no more names occur
  (as tasks or as dependencies) than the interpreter allows nested calls of
  \<^verbatim>\<open>has_cycle\<close>, \<^verbatim>\<open>validate_dependency_graph\<close> raises the error that names such a task and
  its missing dependency, \<^verbatim>\<open>topological_sort\<close> raises it too, and \<^verbatim>\<open>execute_pipeline\<close>
  returns \<^verbatim>\<open>(False, {"error": ...})\<close> with the engine and the world as they were before
  the call: nothing has been logged and no executor has been invoked.
\<close>

theorem unknown_dependency_rejected:
  assumes "\<not> has_dep_cycle tasks"
    and "\<exists>(t, cfg) \<in> set tasks. \<not> set (get_depends_on cfg) \<subseteq> set (map fst tasks)"
    and "card (dfs_nodes iter_order tasks) \<le> frames"
  shows "\<exists>t cfg d. (t, cfg) \<in> set tasks \<and> d \<in> set (get_depends_on cfg) \<and> d \<notin> set (map fst tasks)
           \<and> validate_dependency_graph frames iter_order tasks = Inl (NonExistentDependency t d)
           \<and> topological_sort frames iter_order tasks st = Inl (NonExistentDependency t d)
           \<and> execute_pipeline frames logger iter_order spark tasks executors st
               = Returned False (ErrorDict (NonExistentDependency t d)) st"
proof -
  have "check_existence (set (map fst tasks)) tasks \<noteq> None"
    using assms(2) check_existence_None[of "set (map fst tasks)" tasks] by blast
  then obtain e where c: "check_existence (set (map fst tasks)) tasks = Some e" by blast
  from check_existence_Some[OF c] obtain t cfg d where
    e: "e = NonExistentDependency t d" and m: "(t, cfg) \<in> set tasks"
    and d: "d \<in> set (get_depends_on cfg)" and n: "d \<notin> set (map fst tasks)" by blast
  have v: "validate_dependency_graph frames iter_order tasks = Inl (NonExistentDependency t d)"
    using validate_acyclic[OF assms(1,3)] c e by simp
  have te: "is_TaskDependencyError (NonExistentDependency t d)" by (simp add: is_TaskDependencyError_def)
  have ts: "topological_sort frames iter_order tasks st = Inl (NonExistentDependency t d)"
    by (rule execute_pipeline_validation_error(1)[OF v])
  have ep: "execute_pipeline frames logger iter_order spark tasks executors st
               = Returned False (ErrorDict (NonExistentDependency t d)) st"
    using execute_pipeline_validation_error(2)[OF v] te by simp
  show ?thesis
    using m d n v ts ep by blast
qed

definition dangling_tasks :: tasks where
  "dangling_tasks = [(''load'', plain_task []), (''clean'', plain_task [''load'', ''fetch''])]"

theorem unknown_dependency_rejected_witness:
  "\<not> has_dep_cycle dangling_tasks
   \<and> (\<exists>(t, cfg) \<in> set dangling_tasks. \<not> set (get_depends_on cfg) \<subseteq> set (map fst dangling_tasks))
   \<and> card (dfs_nodes [''clean'', ''load''] dangling_tasks) \<le> 3
   \<and> validate_dependency_graph 3 [''clean'', ''load''] dangling_tasks
       = Inl (NonExistentDependency ''clean'' ''fetch'')
   \<and> (\<exists>t cfg d. (t, cfg) \<in> set dangling_tasks \<and> d \<in> set (get_depends_on cfg)
           \<and> d \<notin> set (map fst dangling_tasks)
           \<and> validate_dependency_graph 3 [''clean'', ''load''] dangling_tasks
               = Inl (NonExistentDependency t d)
           \<and> topological_sort 3 [''clean'', ''load''] dangling_tasks (new_engine (0::nat))
               = Inl (NonExistentDependency t d)
           \<and> execute_pipeline 3 quiet_logger [''clean'', ''load''] idle_spark dangling_tasks Map.empty
                 (new_engine (0::nat))
               = Returned False (ErrorDict (NonExistentDependency t d)) (new_engine 0))"
proof -
  have h1: "\<not> has_dep_cycle dangling_tasks"
  proof (rule rank_acyclic)
    fix t d assume "(t, d) \<in> dep_edges dangling_tasks"
    then show "(if d = ''clean'' then 1 else 0::nat) < (if t = ''clean'' then 1 else 0)"
      by (auto simp: dep_edges_def deps_of_def dangling_tasks_def split: if_splits)
  qed
  have h2: "\<exists>(t, cfg) \<in> set dangling_tasks. \<not> set (get_depends_on cfg) \<subseteq> set (map fst dangling_tasks)"
    by (simp add: dangling_tasks_def)
  have "dfs_nodes [''clean'', ''load''] dangling_tasks = {''clean'', ''load'', ''fetch''}"
    by (auto simp: dfs_nodes_def dangling_tasks_def)
  then have h3: "card (dfs_nodes [''clean'', ''load''] dangling_tasks) \<le> 3" by simp
  have v: "validate_dependency_graph 3 [''clean'', ''load''] dangling_tasks
       = Inl (NonExistentDependency ''clean'' ''fetch'')"
    using validate_acyclic[OF h1 h3]
    by (simp add: dangling_tasks_def)
  from h1 h2 h3 v
    unknown_dependency_rejected[OF h1 h2 h3, of "new_engine (0::nat)" quiet_logger idle_spark Map.empty]
  show ?thesis by blast
qed

section \<open>What one task does to the engine and to the summary\<close>

text \<open>
  The events of \<^verbatim>\<open>execute_task_with_retries\<close> are the calls of \<^verbatim>\<open>log_task_start\<close>,
  \<^verbatim>\<open>log_task_success\<close> and \<^verbatim>\<open>log_task_failure\<close>, the executor invocations and the
  sleeps; it calls neither \<^verbatim>\<open>log_task_skip\<close> nor \<^verbatim>\<open>end_run\<close>, and it does not touch
  the attributes \<^verbatim>\<open>task_results\<close> and \<^verbatim>\<open>execution_order\<close>.
\<close>

definition is_EndRun :: "event \<Rightarrow> bool" where
  "is_EndRun ev = (case ev of EndRun s a b c l \<Rightarrow> True | _ \<Rightarrow> False)"

definition attempt_event :: "event \<Rightarrow> bool" where
  "attempt_event ev = (case ev of LogTaskSkip t c \<Rightarrow> False | EndRun s a b c l \<Rightarrow> False | _ \<Rightarrow> True)"

definition attempt_trace :: "'w engine \<Rightarrow> 'w engine \<Rightarrow> bool" where
  "attempt_trace st st' \<longleftrightarrow>
     (\<exists>new. trace st' = trace st @ new \<and> (\<forall>ev \<in> set new. attempt_event ev))
     \<and> task_results st' = task_results st \<and> execution_order st' = execution_order st"

lemma attempt_trace_refl: "attempt_trace st st"
  by (simp add: attempt_trace_def)

lemma attempt_trace_trans:
  assumes "attempt_trace st st'" and "attempt_trace st' st''"
  shows "attempt_trace st st''"
proof -
  from assms obtain n1 n2 where "trace st' = trace st @ n1" "\<forall>ev \<in> set n1. attempt_event ev"
    "trace st'' = trace st' @ n2" "\<forall>ev \<in> set n2. attempt_event ev"
    unfolding attempt_trace_def by blast
  then have "trace st'' = trace st @ (n1 @ n2) \<and> (\<forall>ev \<in> set (n1 @ n2). attempt_event ev)" by auto
  then show ?thesis using assms unfolding attempt_trace_def by metis
qed

lemma attempt_trace_audit:
  assumes "audit logger ev st = (r, st')" and "attempt_event ev"
  shows "attempt_trace st st'"
  using assms by (auto simp: audit_def emit_def attempt_trace_def split: prod.splits)

lemma attempt_trace_sleep: "attempt_trace st (emit (Sleep k) st)"
  by (simp add: attempt_trace_def emit_def attempt_event_def)

lemma run_attempt_trace:
  assumes "run_attempt logger task_nm cfg executor a st = (r, st')"
  shows "attempt_trace st st'"
  using assms
  by (auto simp: run_attempt_def audit_def emit_def Let_def attempt_trace_def attempt_event_def
      split: prod.splits option.splits exec_outcome.splits)

lemma retry_loop_effect:
  "(retry_loop logger task_nm cfg executor maxr attempt st = Finished b r st'
      \<longrightarrow> attempt_trace st st' \<and> status_of r = (if b then SUCCESS else FAILED))
   \<and> (retry_loop logger task_nm cfg executor maxr attempt st = Escaped e st' \<longrightarrow> attempt_trace st st')"
proof (induction logger task_nm cfg executor maxr attempt st rule: retry_loop.induct)
  case (1 logger task_nm cfg executor maxr attempt st)
  show ?case
  proof (cases "int attempt \<le> maxr")
    case False
    then show ?thesis by (subst (1 2) retry_loop.simps) (simp add: attempt_trace_refl)
  next
    case le: True
    obtain out st1 where ra: "run_attempt logger task_nm cfg executor (attempt + 1) st = (out, st1)"
      by (cases "run_attempt logger task_nm cfg executor (attempt + 1) st")
    note t1 = run_attempt_trace[OF ra]
    show ?thesis
    proof (cases out)
      case (Inr rows)
      with le ra t1 show ?thesis by (subst (1 2) retry_loop.simps) (auto simp: Let_def)
    next
      case (Inl err)
      show ?thesis
      proof (cases "int (attempt + 1) < maxr + 1")
        case True
        have t2: "attempt_trace st (emit (Sleep (2 ^ (attempt + 1 - 1))) st1)"
          by (rule attempt_trace_trans[OF t1 attempt_trace_sleep])
        from "1.IH"[OF le refl ra[symmetric] Inl True]
        have ih: "(retry_loop logger task_nm cfg executor maxr (attempt + 1)
                      (emit (Sleep (2 ^ (attempt + 1 - 1))) st1) = Finished b r st'
                    \<longrightarrow> attempt_trace (emit (Sleep (2 ^ (attempt + 1 - 1))) st1) st'
                        \<and> status_of r = (if b then SUCCESS else FAILED))
                 \<and> (retry_loop logger task_nm cfg executor maxr (attempt + 1)
                      (emit (Sleep (2 ^ (attempt + 1 - 1))) st1) = Escaped e st'
                    \<longrightarrow> attempt_trace (emit (Sleep (2 ^ (attempt + 1 - 1))) st1) st')" .
        have step: "retry_loop logger task_nm cfg executor maxr attempt st
                = retry_loop logger task_nm cfg executor maxr (attempt + 1)
                      (emit (Sleep (2 ^ (attempt + 1 - 1))) st1)"
          using le ra Inl True by (subst retry_loop.simps) (simp add: Let_def)
        show ?thesis unfolding step using ih attempt_trace_trans[OF t2] by blast
      next
        case False
        obtain r2 st2 where au: "audit logger (LogTaskFailure task_nm err) st1 = (r2, st2)"
          by (cases "audit logger (LogTaskFailure task_nm err) st1")
        have t2: "attempt_trace st st2"
          by (rule attempt_trace_trans[OF t1 attempt_trace_audit[OF au]]) (simp add: attempt_event_def)
        show ?thesis
          using le ra Inl False au t2
          by (subst (1 2) retry_loop.simps) (auto simp: Let_def split: option.splits)
      qed
    qed
  qed
qed

lemma audit_effect:
  assumes "audit logger ev st = (r, st')"
  shows "trace st' = trace st @ [ev]" and "task_results st' = task_results st"
    and "execution_order st' = execution_order st"
  using assms by (auto simp: audit_def emit_def split: prod.splits)

lemma attempt_event_simps [simp]:
  "attempt_event ev \<Longrightarrow> \<not> is_EndRun ev"
  "attempt_event ev \<Longrightarrow> ev \<noteq> LogTaskSkip t c"
  by (auto simp: attempt_event_def is_EndRun_def split: event.splits)

text \<open>
  An iteration of the loop over the plan that goes on to the next task has done one of
  three things: it has run the task and stored its result in \<^verbatim>\<open>self.task_results\<close> and
  in the summary; or it has skipped the task, on its skip condition or because a
  dependency has not succeeded, and logged the skip; or it has found no executor and
  counted the task as failed, without changing the engine.
\<close>

lemma process_task_continue:
  assumes "process_task logger spark tasks executors t summ st = Continue summ' st'"
  shows "\<exists>new. trace st' = trace st @ new \<and> (\<forall>ev \<in> set new. \<not> is_EndRun ev)
          \<and> (\<forall>t' c. LogTaskSkip t' c \<in> set new \<longrightarrow> t' = t)
          \<and> (\<forall>t'. t' \<noteq> t \<longrightarrow> task_results st' t' = task_results st t')
          \<and> execution_order st' = execution_order st
          \<and> ((\<exists>r. summ' = (if status_of r = SUCCESS
                            then (summ\<lparr>summary_results := (summary_results summ)(t \<mapsto> r)\<rparr>)
                                   \<lparr>successful_tasks := successful_tasks summ + 1\<rparr>
                            else count_failed t (summ\<lparr>summary_results := (summary_results summ)(t \<mapsto> r)\<rparr>))
                 \<and> status_of r \<noteq> SKIPPED \<and> task_results st' t = Some r \<and> executors t \<noteq> None
                 \<and> (\<forall>c. LogTaskSkip t c \<notin> set new))
             \<or> (summ' = summ\<lparr>skipped_tasks := skipped_tasks summ + 1\<rparr> \<and> (\<exists>c. LogTaskSkip t c \<in> set new))
             \<or> (summ' = count_failed t summ \<and> st' = st \<and> executors t = None \<and> new = []))"
proof -
  from assms obtain cfg where cfg: "map_of tasks t = Some cfg"
    by (auto simp: process_task_def split: option.splits)
  show ?thesis
  proof (cases "should_skip_task spark (world st) t (skip_on_condition cfg)")
    case True
    obtain r st1 where au: "audit logger (LogTaskSkip t (skip_on_condition cfg)) st = (r, st1)"
      by (cases "audit logger (LogTaskSkip t (skip_on_condition cfg)) st")
    from assms cfg True au have r: "r = None"
      and s: "summ' = summ\<lparr>skipped_tasks := skipped_tasks summ + 1\<rparr>"
      and e: "st' = st1\<lparr>task_results := (task_results st1)(t \<mapsto> SkippedResult)\<rparr>"
      by (auto simp: process_task_def split: option.splits)
    note a = audit_effect[OF au]
    show ?thesis
      apply (rule exI[of _ "[LogTaskSkip t (skip_on_condition cfg)]"])
      using a s e by (simp add: is_EndRun_def)
  next
    case noskip: False
    with assms cfg have ce: "check_and_execute logger executors t cfg summ st = Continue summ' st'"
      by (simp add: process_task_def)
    show ?thesis
    proof (cases "can_execute (task_results st) (get_depends_on cfg)")
      case False
      obtain r st1 where au: "audit logger (LogTaskSkip t (Some ''dependency_failed'')) st = (r, st1)"
        by (cases "audit logger (LogTaskSkip t (Some ''dependency_failed'')) st")
      from ce False au have s: "summ' = summ\<lparr>skipped_tasks := skipped_tasks summ + 1\<rparr>"
        and e: "st' = st1"
        by (auto simp: check_and_execute_def split: option.splits if_splits)
      note a = audit_effect[OF au]
      show ?thesis
        apply (rule exI[of _ "[LogTaskSkip t (Some ''dependency_failed'')]"])
        using a s e by (simp add: is_EndRun_def)
    next
      case can: True
      show ?thesis
      proof (cases "executors t")
        case None
        with ce can have "summ' = count_failed t summ" "st' = st"
          by (simp_all add: check_and_execute_def)
        with None show ?thesis by (intro exI[of _ "[]"]) simp
      next
        case (Some executor)
        from ce can Some obtain b r st1 where
          ex: "execute_task_with_retries logger t cfg executor (get_max_retries cfg) st = Finished b r st1"
          by (auto simp: check_and_execute_def split: retry_result.splits)
        from retry_loop_effect[of logger t cfg executor "get_max_retries cfg" 0 st b r st1] ex
        have at: "attempt_trace st st1" and so: "status_of r = (if b then SUCCESS else FAILED)"
          by (simp_all add: execute_task_with_retries_def)
        from at obtain new where n: "trace st1 = trace st @ new" "\<forall>ev \<in> set new. attempt_event ev"
          and tr: "task_results st1 = task_results st" and eo: "execution_order st1 = execution_order st"
          unfolding attempt_trace_def by blast
        from ce can Some ex have e: "st' = st1\<lparr>task_results := (task_results st1)(t \<mapsto> r)\<rparr>"
          by (auto simp: check_and_execute_def Let_def split: if_splits)
        from ce can Some ex so
        have s: "summ' = (if status_of r = SUCCESS
                            then (summ\<lparr>summary_results := (summary_results summ)(t \<mapsto> r)\<rparr>)
                                   \<lparr>successful_tasks := successful_tasks summ + 1\<rparr>
                            else count_failed t (summ\<lparr>summary_results := (summary_results summ)(t \<mapsto> r)\<rparr>))"
          by (auto simp: check_and_execute_def Let_def split: if_splits)
        have ns: "status_of r \<noteq> SKIPPED" using so by (simp split: if_splits)
        have nl: "\<forall>t' c. LogTaskSkip t' c \<notin> set new" using n(2) by (metis attempt_event_simps(2))
        have ne: "\<forall>ev \<in> set new. \<not> is_EndRun ev" using n(2) by simp
        show ?thesis
          apply (rule exI[of _ new])
          apply (intro conjI)
               apply (simp add: e n(1))
              apply (rule ne)
             apply (simp add: nl)
            apply (simp add: e tr)
           apply (simp add: e eo)
          apply (rule disjI1)
          apply (rule exI[of _ r])
          using s ns e Some nl by simp
      qed
    qed
  qed
qed

lemma process_task_abort:
  assumes "process_task logger spark tasks executors t summ st = Abort e summ' st'"
  shows "\<exists>new. trace st' = trace st @ new \<and> (\<forall>ev \<in> set new. \<not> is_EndRun ev)"
proof (cases "map_of tasks t")
  case None
  with assms have "st' = st" by (simp add: process_task_def)
  then show ?thesis by simp
next
  case (Some cfg)
  show ?thesis
  proof (cases "should_skip_task spark (world st) t (skip_on_condition cfg)")
    case True
    obtain r st1 where au: "audit logger (LogTaskSkip t (skip_on_condition cfg)) st = (r, st1)"
      by (cases "audit logger (LogTaskSkip t (skip_on_condition cfg)) st")
    from assms Some True au have "st' = st1"
      by (auto simp: process_task_def split: option.splits)
    with audit_effect(1)[OF au] show ?thesis by (simp add: is_EndRun_def)
  next
    case noskip: False
    with assms Some have ce: "check_and_execute logger executors t cfg summ st = Abort e summ' st'"
      by (simp add: process_task_def)
    show ?thesis
    proof (cases "can_execute (task_results st) (get_depends_on cfg)")
      case False
      obtain r st1 where au: "audit logger (LogTaskSkip t (Some ''dependency_failed'')) st = (r, st1)"
        by (cases "audit logger (LogTaskSkip t (Some ''dependency_failed'')) st")
      from ce False au have "st' = st \<or> st' = st1"
        by (auto simp: check_and_execute_def split: option.splits if_splits)
      with audit_effect(1)[OF au] show ?thesis by (auto simp: is_EndRun_def)
    next
      case can: True
      from ce can obtain executor where ex: "executors t = Some executor"
        by (auto simp: check_and_execute_def split: option.splits)
      obtain res where res: "execute_task_with_retries logger t cfg executor (get_max_retries cfg) st = res"
        by simp
      show ?thesis
      proof (cases res)
        case (Finished b r st1)
        from retry_loop_effect[of logger t cfg executor "get_max_retries cfg" 0 st b r st1] res Finished
        have at: "attempt_trace st st1" by (simp add: execute_task_with_retries_def)
        from ce can ex res Finished have "trace st' = trace st1"
          by (auto simp: check_and_execute_def Let_def split: if_splits)
        with at show ?thesis unfolding attempt_trace_def by (metis attempt_event_simps(1))
      next
        case (Escaped e1 st1)
        from retry_loop_effect[of logger t cfg executor "get_max_retries cfg" 0 st _ _ st1 e1] res Escaped
        have at: "attempt_trace st st1" by (simp add: execute_task_with_retries_def)
        from ce can ex res Escaped have "st' = st1"
          by (auto simp: check_and_execute_def)
        with at show ?thesis unfolding attempt_trace_def by (metis attempt_event_simps(1))
      qed
    qed
  qed
qed

section \<open>The end of a run\<close>

fun engine_of :: "'w step \<Rightarrow> 'w engine" where
  "engine_of (Continue summ st) = st"
| "engine_of (Abort e summ st) = st"

lemma run_tasks_no_end_run:
  "\<exists>new. trace (engine_of (run_tasks logger spark tasks executors ts summ st)) = trace st @ new
         \<and> (\<forall>ev \<in> set new. \<not> is_EndRun ev)"
proof (induction ts arbitrary: summ st)
  case Nil
  then show ?case by simp
next
  case (Cons t ts)
  show ?case
  proof (cases "process_task logger spark tasks executors t summ st")
    case (Abort e summ1 st1)
    from process_task_abort[OF Abort] show ?thesis by (simp add: Abort)
  next
    case (Continue summ1 st1)
    from process_task_continue[OF Continue] obtain n1 where
      1: "trace st1 = trace st @ n1" "\<forall>ev \<in> set n1. \<not> is_EndRun ev" by blast
    from Cons.IH[of summ1 st1] obtain n2 where
      2: "trace (engine_of (run_tasks logger spark tasks executors ts summ1 st1)) = trace st1 @ n2"
         "\<forall>ev \<in> set n2. \<not> is_EndRun ev" by blast
    show ?thesis
      by (rule exI[of _ "n1 @ n2"]) (use 1 2 Continue in auto)
  qed
qed

lemma topological_sort_trace:
  "topological_sort frames iter_order tasks st = Inr (plan, st0) \<Longrightarrow>
     trace st0 = trace st \<and> world st0 = world st \<and> task_results st0 = task_results st"
  by (auto simp: topological_sort_def split: sum.splits)

definition solo_tasks :: tasks where
  "solo_tasks = [(''A'', plain_task [])]"

definition ok_executor :: "nat executor" where
  "ok_executor w = (Returns (Some 10), Suc w)"

lemmas run_simps =
  execute_pipeline_def topological_sort_def validate_dependency_graph_def kahn_order_def
  init_in_degree_def init_adjacency_def deps_of_def initial_summary_def process_task_def
  should_skip_task_def check_and_execute_def execute_task_with_retries_def retry_loop.simps
  run_attempt_def audit_def emit_def finish_run_def count_failed_def new_engine_def plain_task_def
  get_task_type_def get_critical_def get_max_retries_def get_depends_on_def Let_def




section \<open>The three-task example\<close>

definition task_A :: task_config where
  "task_A = (plain_task [])\<lparr>critical := Some True\<rparr>"

definition task_B :: task_config where
  "task_B = (plain_task [''A''])\<lparr>critical := Some False\<rparr>"

definition task_C :: task_config where
  "task_C = (plain_task [''B''])\<lparr>critical := Some True\<rparr>"

definition abc_tasks :: tasks where
  "abc_tasks = [(''A'', task_A), (''B'', task_B), (''C'', task_C)]"

lemma abc_configs [simp]:
  "get_depends_on task_A = []" "get_depends_on task_B = [''A'']" "get_depends_on task_C = [''B'']"
  "get_critical task_A" "\<not> get_critical task_B" "get_critical task_C"
  "get_max_retries task_A = 2" "get_max_retries task_B = 2" "get_max_retries task_C = 2"
  "skip_on_condition task_A = None" "skip_on_condition task_B = None" "skip_on_condition task_C = None"
  by (simp_all add: task_A_def task_B_def task_C_def plain_task_def get_depends_on_def
      get_critical_def get_max_retries_def)

definition abc_executors :: "task_name \<rightharpoonup> nat executor" where
  "abc_executors = [''A'' \<mapsto> ok_executor, ''B'' \<mapsto> failing_executor, ''C'' \<mapsto> ok_executor]"

lemma abc_acyclic: "\<not> has_dep_cycle abc_tasks"
proof (rule rank_acyclic)
  fix t d assume "(t, d) \<in> dep_edges abc_tasks"
  then show "(if d = ''C'' then 2 else if d = ''B'' then 1 else 0::nat)
               < (if t = ''C'' then 2 else if t = ''B'' then 1 else 0)"
    by (auto simp: dep_edges_def deps_of_def abc_tasks_def split: if_splits)
qed

lemma abc_plan:
  assumes "set iter_order = {''A'', ''B'', ''C''}" and "3 \<le> frames"
  shows "topological_sort frames iter_order abc_tasks st
           = Inr ([''A'', ''B'', ''C''],
                  st\<lparr>execution_order := record_order 1 [''A'', ''B'', ''C''] (execution_order st)\<rparr>)"
proof -
  have "dfs_nodes iter_order abc_tasks = {''A'', ''B'', ''C''}"
    using assms(1) by (auto simp: dfs_nodes_def abc_tasks_def)
  then have "card (dfs_nodes iter_order abc_tasks) \<le> frames" using assms(2) by simp
  from validate_acyclic[OF abc_acyclic this]
  have v: "validate_dependency_graph frames iter_order abc_tasks = Inr True"
    by (simp add: abc_tasks_def)
  have k: "kahn_order abc_tasks = Inr [''A'', ''B'', ''C'']"
    by (simp add: kahn_order_def abc_tasks_def init_in_degree_def init_adjacency_def)
  show ?thesis by (simp add: topological_sort_def v k)
qed

lemma retry_loop_first_success:
  assumes "logger_returns logger" and "0 \<le> maxr"
    and "executor (snd (logger (LogTaskStart t (get_task_type cfg) (recorded_order st t) 1) (world st)))
           = (Returns rows, w')"
  shows "retry_loop logger t cfg executor maxr 0 st =
           Finished True (Succeeded 1 rows)
             (st\<lparr>world := snd (logger (LogTaskSuccess t (case rows of None \<Rightarrow> 0 | Some n \<Rightarrow> n)) w'),
                 trace := trace st @ [LogTaskStart t (get_task_type cfg) (recorded_order st t) 1,
                                      ExecutorCall t,
                                      LogTaskSuccess t (case rows of None \<Rightarrow> 0 | Some n \<Rightarrow> n)]\<rparr>)"
  using assms(2,3)
  by (subst retry_loop.simps)
     (simp add: run_attempt_def audit_returns[OF assms(1)] emit_def recorded_order_def Let_def)

lemma quiet_attempts_world:
  assumes "\<forall>ev w. snd (logger ev w) = w"
  shows "snd (logger ev0 (fold (attempt_effect logger executor t cfg ord) (map Suc [0..<n]) w))
           = ((\<lambda>w. snd (executor w)) ^^ n) w"
proof -
  have "attempt_effect logger executor t cfg ord = (\<lambda>i w. snd (executor w))"
    using assms by (simp add: attempt_effect_def fun_eq_iff)
  then have "snd (logger ev0 (fold (attempt_effect logger executor t cfg ord) (map Suc [0..<n]) w))
          = fold (\<lambda>i w. snd (executor w)) (map Suc [0..<n]) w"
    using assms by simp
  also have "\<dots> = ((\<lambda>w. snd (executor w)) ^^ length (map Suc [0..<n])) w"
    by (rule fold_constant_step)
  finally show ?thesis by simp
qed

text \<open>
  C2, as stated, does not hold. With an executor of \<^verbatim>\<open>A\<close> that succeeds and an executor
  of \<^verbatim>\<open>B\<close> that raises on each of its three attempts, the loop over the plan raises
  \<^verbatim>\<open>CriticalTaskFailure\<close> at \<^verbatim>\<open>C\<close>, but the summary at that point counts two failed
  tasks, \<^verbatim>\<open>B\<close> and \<^verbatim>\<open>C\<close>, not one: the blocked critical task is counted as failed and
  appended to the list of failed tasks before the exception is raised.
\<close>

theorem blocked_critical_task_counted_failed:
  "topological_sort 3 [''A'', ''B'', ''C''] abc_tasks (new_engine (0::nat))
     = Inr ([''A'', ''B'', ''C''],
            (new_engine 0)\<lparr>execution_order := [''A'' \<mapsto> 1, ''B'' \<mapsto> 2, ''C'' \<mapsto> 3]\<rparr>)
   \<and> run_tasks quiet_logger idle_spark abc_tasks abc_executors [''A'', ''B'', ''C'']
         (initial_summary [''A'', ''B'', ''C''])
         ((new_engine 0)\<lparr>execution_order := [''A'' \<mapsto> 1, ''B'' \<mapsto> 2, ''C'' \<mapsto> 3]\<rparr>)
     = Abort (CriticalBlocked ''C'')
         \<lparr>total_tasks = 3, successful_tasks = 1, failed_tasks = 2, skipped_tasks = 0,
          summary_results = [''A'' \<mapsto> Succeeded 1 (Some 10), ''B'' \<mapsto> FailedAttempt 3 ''TimeoutError''],
          failed_tasks_list = [''B'', ''C'']\<rparr>
         \<lparr>world = 4,
          trace = [LogTaskStart ''A'' ''unknown'' 1 1, ExecutorCall ''A'', LogTaskSuccess ''A'' 10,
                   LogTaskStart ''B'' ''unknown'' 2 1, ExecutorCall ''B'', Sleep 1,
                   LogTaskStart ''B'' ''unknown'' 2 2, ExecutorCall ''B'', Sleep 2,
                   LogTaskStart ''B'' ''unknown'' 2 3, ExecutorCall ''B'',
                   LogTaskFailure ''B'' ''TimeoutError''],
          execution_order = [''A'' \<mapsto> 1, ''B'' \<mapsto> 2, ''C'' \<mapsto> 3],
          task_results = [''A'' \<mapsto> Succeeded 1 (Some 10), ''B'' \<mapsto> FailedAttempt 3 ''TimeoutError'']\<rparr>"
proof -
  have "set [''A'', ''B'', ''C''] = {''A'', ''B'', ''C''}" by simp
  from abc_plan[OF this, of 3 "new_engine (0::nat)"]
  have 1: "topological_sort 3 [''A'', ''B'', ''C''] abc_tasks (new_engine (0::nat))
     = Inr ([''A'', ''B'', ''C''],
            (new_engine 0)\<lparr>execution_order := [''A'' \<mapsto> 1, ''B'' \<mapsto> 2, ''C'' \<mapsto> 3]\<rparr>)"
    by (simp add: new_engine_def numeral_3_eq_3 numeral_2_eq_2)
  have 2: "run_tasks quiet_logger idle_spark abc_tasks abc_executors [''A'', ''B'', ''C'']
         (initial_summary [''A'', ''B'', ''C''])
         ((new_engine 0)\<lparr>execution_order := [''A'' \<mapsto> 1, ''B'' \<mapsto> 2, ''C'' \<mapsto> 3]\<rparr>)
     = Abort (CriticalBlocked ''C'')
         \<lparr>total_tasks = 3, successful_tasks = 1, failed_tasks = 2, skipped_tasks = 0,
          summary_results = [''A'' \<mapsto> Succeeded 1 (Some 10), ''B'' \<mapsto> FailedAttempt 3 ''TimeoutError''],
          failed_tasks_list = [''B'', ''C'']\<rparr>
         \<lparr>world = 4,
          trace = [LogTaskStart ''A'' ''unknown'' 1 1, ExecutorCall ''A'', LogTaskSuccess ''A'' 10,
                   LogTaskStart ''B'' ''unknown'' 2 1, ExecutorCall ''B'', Sleep 1,
                   LogTaskStart ''B'' ''unknown'' 2 2, ExecutorCall ''B'', Sleep 2,
                   LogTaskStart ''B'' ''unknown'' 2 3, ExecutorCall ''B'',
                   LogTaskFailure ''B'' ''TimeoutError''],
          execution_order = [''A'' \<mapsto> 1, ''B'' \<mapsto> 2, ''C'' \<mapsto> 3],
          task_results = [''A'' \<mapsto> Succeeded 1 (Some 10), ''B'' \<mapsto> FailedAttempt 3 ''TimeoutError'']\<rparr>"
    by (simp add: run_simps abc_tasks_def task_A_def task_B_def task_C_def abc_executors_def
        quiet_logger_def failing_executor_def ok_executor_def idle_spark_def numeral_3_eq_3)
  from 1 2 show ?thesis by (rule conjI)
qed

text \<open>
  C2, amended. For the three-task set \<^verbatim>\<open>A\<close> (no dependencies, critical), \<^verbatim>\<open>B\<close> (depends
  on \<^verbatim>\<open>A\<close>, not critical), \<^verbatim>\<open>C\<close> (depends on \<^verbatim>\<open>B\<close>, critical), where the executor of
  \<^verbatim>\<open>A\<close> succeeds, the executor of \<^verbatim>\<open>B\<close> raises on every attempt and the audit logger
  returns normally: \<^verbatim>\<open>A\<close> ends with status \<^verbatim>\<open>SUCCESS\<close>, \<^verbatim>\<open>B\<close> exhausts its three attempts
  and ends with status \<^verbatim>\<open>FAILED\<close>, and on reaching \<^verbatim>\<open>C\<close> the engine raises
  \<^verbatim>\<open>CriticalTaskFailure\<close>. The summary at that point counts one successful task, two
  failed tasks (\<^verbatim>\<open>B\<close>, and \<^verbatim>\<open>C\<close>, which is counted as failed when it is found blocked) and
  no skipped task; no result is recorded for \<^verbatim>\<open>C\<close> and its executor is not invoked. The
  summary is not returned: the exception leaves \<^verbatim>\<open>execute_pipeline\<close>, and \<^verbatim>\<open>end_run\<close> is
  not called.
\<close>

theorem blocked_critical_task_aborts_run:
  assumes "\<forall>w. \<exists>rows w'. executor_A w = (Returns rows, w')"
    and "always_raises executor_B"
    and "logger_returns logger"
    and "executors ''A'' = Some executor_A" and "executors ''B'' = Some executor_B"
    and "set iter_order = {''A'', ''B'', ''C''}" and "3 \<le> frames"
  shows "\<exists>summ st' rows e new.
      execute_pipeline frames logger iter_order spark abc_tasks executors st
        = Raised (CriticalBlocked ''C'') st'
    \<and> run_tasks logger spark abc_tasks executors [''A'', ''B'', ''C'']
          (initial_summary [''A'', ''B'', ''C''])
          (st\<lparr>execution_order := record_order 1 [''A'', ''B'', ''C''] (execution_order st)\<rparr>)
        = Abort (CriticalBlocked ''C'') summ st'
    \<and> summ = \<lparr>total_tasks = 3, successful_tasks = 1, failed_tasks = 2, skipped_tasks = 0,
                summary_results = [''A'' \<mapsto> Succeeded 1 rows, ''B'' \<mapsto> FailedAttempt 3 e],
                failed_tasks_list = [''B'', ''C'']\<rparr>
    \<and> task_results st' = (task_results st)(''A'' \<mapsto> Succeeded 1 rows, ''B'' \<mapsto> FailedAttempt 3 e)
    \<and> trace st' = trace st @ new
    \<and> calls_and_sleeps new = [ExecutorCall ''A'', ExecutorCall ''B'', Sleep 1, ExecutorCall ''B'',
                                Sleep 2, ExecutorCall ''B'']
    \<and> (\<forall>ev \<in> set new. \<not> is_EndRun ev)
    \<and> ((\<forall>ev w. snd (logger ev w) = w) \<longrightarrow>
          world st' = ((\<lambda>w. snd (executor_B w)) ^^ 3) (snd (executor_A (world st))))"
proof -
  let ?plan = "[''A'', ''B'', ''C'']"
  define st0 where "st0 = st\<lparr>execution_order := record_order 1 ?plan (execution_order st)\<rparr>"
  have ts: "topological_sort frames iter_order abc_tasks st = Inr (?plan, st0)"
    unfolding st0_def by (rule abc_plan[OF assms(6,7)])
  \<comment> \<open>task A\<close>
  let ?startA = "LogTaskStart ''A'' (get_task_type task_A) (recorded_order st0 ''A'') 1"
  obtain rows wA where exA: "executor_A (snd (logger ?startA (world st0))) = (Returns rows, wA)"
    using assms(1) by blast
  let ?succA = "LogTaskSuccess ''A'' (case rows of None \<Rightarrow> 0 | Some n \<Rightarrow> n)"
  define stA where "stA = st0\<lparr>world := snd (logger ?succA wA),
      trace := trace st0 @ [?startA, ExecutorCall ''A'', ?succA],
      task_results := (task_results st0)(''A'' \<mapsto> Succeeded 1 rows)\<rparr>"
  define summA where "summA = (initial_summary ?plan)
      \<lparr>summary_results := [''A'' \<mapsto> Succeeded 1 rows], successful_tasks := 1\<rparr>"
  have rA: "retry_loop logger ''A'' task_A executor_A 2 0 st0 =
           Finished True (Succeeded 1 rows)
             (st0\<lparr>world := snd (logger ?succA wA),
                 trace := trace st0 @ [?startA, ExecutorCall ''A'', ?succA]\<rparr>)"
    by (rule retry_loop_first_success[where executor = executor_A and logger = logger and st = st0,
          OF assms(3) _ exA]) simp
  have pA: "process_task logger spark abc_tasks executors ''A'' (initial_summary ?plan) st0
              = Continue summA stA"
    by (simp add: process_task_def abc_tasks_def should_skip_task_def check_and_execute_def assms(4)
        execute_task_with_retries_def rA Let_def stA_def summA_def initial_summary_def)
  \<comment> \<open>task B\<close>
  from retry_loop_always_raises[OF assms(2,3), of 0 2 "''B''" task_B stA]
  obtain e newB st2 where
    rB: "retry_loop logger ''B'' task_B executor_B 2 0 stA = Finished False (FailedAttempt 3 e) st2"
    and tB: "trace st2 = trace stA @ newB"
    and cB: "calls_and_sleeps newB = backoff_schedule ''B'' 0 2"
    and wB: "world st2 = snd (logger (LogTaskFailure ''B'' e)
                (fold (attempt_effect logger executor_B ''B'' task_B (recorded_order stA ''B''))
                   (map Suc [0..<Suc 2]) (world stA)))"
    by (auto simp: numeral_3_eq_3)
  from retry_loop_effect[of logger "''B''" task_B executor_B 2 0 stA False "FailedAttempt 3 e" st2] rB
  have aB: "attempt_trace stA st2" by simp
  then have resB: "task_results st2 = task_results stA"
    and evB: "\<forall>ev \<in> set newB. attempt_event ev"
    using tB unfolding attempt_trace_def by auto
  define stB where "stB = st2\<lparr>task_results := (task_results st2)(''B'' \<mapsto> FailedAttempt 3 e)\<rparr>"
  define summB where "summB = count_failed ''B''
      (summA\<lparr>summary_results := (summary_results summA)(''B'' \<mapsto> FailedAttempt 3 e)\<rparr>)"
  have canB: "can_execute (task_results stA) [''A'']" by (simp add: stA_def)
  have pB: "process_task logger spark abc_tasks executors ''B'' summA stA = Continue summB stB"
    by (simp add: process_task_def abc_tasks_def should_skip_task_def check_and_execute_def assms(5)
        execute_task_with_retries_def rB Let_def stB_def summB_def canB del: can_execute.simps)
  \<comment> \<open>task C\<close>
  have pC: "process_task logger spark abc_tasks executors ''C'' summB stB
              = Abort (CriticalBlocked ''C'') (count_failed ''C'' summB) stB"
    by (simp add: process_task_def abc_tasks_def should_skip_task_def check_and_execute_def
        stB_def)
  have run: "run_tasks logger spark abc_tasks executors ?plan (initial_summary ?plan) st0
               = Abort (CriticalBlocked ''C'') (count_failed ''C'' summB) stB"
    by (simp add: pA pB pC)
  have ep: "execute_pipeline frames logger iter_order spark abc_tasks executors st
              = Raised (CriticalBlocked ''C'') stB"
    by (simp add: execute_pipeline_def ts run del: run_tasks.simps)
  have summ: "count_failed ''C'' summB =
        \<lparr>total_tasks = 3, successful_tasks = 1, failed_tasks = 2, skipped_tasks = 0,
         summary_results = [''A'' \<mapsto> Succeeded 1 rows, ''B'' \<mapsto> FailedAttempt 3 e],
         failed_tasks_list = [''B'', ''C'']\<rparr>"
    by (simp add: summB_def summA_def count_failed_def initial_summary_def)
  have res: "task_results stB = (task_results st)(''A'' \<mapsto> Succeeded 1 rows, ''B'' \<mapsto> FailedAttempt 3 e)"
    by (simp add: stB_def resB stA_def st0_def)
  let ?new = "[?startA, ExecutorCall ''A'', ?succA] @ newB"
  have tr: "trace stB = trace st @ ?new"
    by (simp add: stB_def tB stA_def st0_def)
  have cs: "calls_and_sleeps ?new = [ExecutorCall ''A'', ExecutorCall ''B'', Sleep 1, ExecutorCall ''B'',
                                Sleep 2, ExecutorCall ''B'']"
  proof -
    have "calls_and_sleeps ?new = ExecutorCall ''A'' # calls_and_sleeps newB"
      by (simp add: calls_and_sleeps_def)
    also have "calls_and_sleeps newB = [ExecutorCall ''B'', Sleep 1, ExecutorCall ''B'',
                                Sleep 2, ExecutorCall ''B'']"
      unfolding cB by (simp add: backoff_schedule_def numeral_2_eq_2)
    finally show ?thesis .
  qed
  have "\<forall>ev \<in> set newB. \<not> is_EndRun ev" using evB by simp
  then have ne: "\<forall>ev \<in> set ?new. \<not> is_EndRun ev"
    by (simp add: is_EndRun_def)
  have wq: "world stB = ((\<lambda>w. snd (executor_B w)) ^^ 3) (snd (executor_A (world st)))"
    if q: "\<forall>ev w. snd (logger ev w) = w"
  proof -
    have "wA = snd (executor_A (world st))" using exA q by (simp add: st0_def)
    then have "world stA = snd (executor_A (world st))" using q by (simp add: stA_def)
    moreover have "world stB = ((\<lambda>w. snd (executor_B w)) ^^ 3) (world stA)"
      using wB quiet_attempts_world[OF q, of "LogTaskFailure ''B'' e" executor_B "''B''" task_B
          "recorded_order stA ''B''" 3 "world stA"]
      by (simp add: stB_def numeral_3_eq_3)
    ultimately show ?thesis by simp
  qed
  show ?thesis
    apply (rule exI[of _ "count_failed ''C'' summB"])
    apply (rule exI[of _ stB])
    apply (rule exI[of _ rows])
    apply (rule exI[of _ e])
    apply (rule exI[of _ ?new])
    using ep run[unfolded st0_def] summ res tr cs ne wq by blast
qed

theorem blocked_critical_task_aborts_run_witness:
  "(\<forall>w. \<exists>rows w'. ok_executor w = (Returns rows, w')) \<and> always_raises failing_executor
   \<and> logger_returns quiet_logger
   \<and> abc_executors ''A'' = Some ok_executor \<and> abc_executors ''B'' = Some failing_executor
   \<and> set [''A'', ''B'', ''C''] = {''A'', ''B'', ''C''} \<and> (3::nat) \<le> 3
   \<and> (\<exists>summ st'.
        execute_pipeline 3 quiet_logger [''A'', ''B'', ''C''] idle_spark abc_tasks abc_executors
            (new_engine 0)
          = Raised (CriticalBlocked ''C'') st'
      \<and> run_tasks quiet_logger idle_spark abc_tasks abc_executors [''A'', ''B'', ''C'']
            (initial_summary [''A'', ''B'', ''C''])
            ((new_engine 0)\<lparr>execution_order :=
                 record_order 1 [''A'', ''B'', ''C''] (execution_order (new_engine (0::nat)))\<rparr>)
          = Abort (CriticalBlocked ''C'') summ st'
      \<and> successful_tasks summ = 1 \<and> failed_tasks summ = 2 \<and> skipped_tasks summ = 0
      \<and> failed_tasks_list summ = [''B'', ''C'']
      \<and> summary_results summ ''C'' = None \<and> task_results st' ''C'' = None
      \<and> world st' = 4)"
proof -
  have h1: "\<forall>w. \<exists>rows w'. ok_executor w = (Returns rows, w')" by (simp add: ok_executor_def)
  have h2: "always_raises failing_executor" by (simp add: always_raises_def failing_executor_def)
  have h3: "logger_returns quiet_logger" by (simp add: logger_returns_def quiet_logger_def)
  have h4: "abc_executors ''A'' = Some ok_executor" by (simp add: abc_executors_def)
  have h5: "abc_executors ''B'' = Some failing_executor" by (simp add: abc_executors_def)
  have h6: "set [''A'', ''B'', ''C''] = {''A'', ''B'', ''C''}" by simp
  have h7: "(3::nat) \<le> 3" by simp
  have q: "\<forall>ev w. snd (quiet_logger ev w) = w" by (simp add: quiet_logger_def)
  have w: "((\<lambda>w. snd (failing_executor w)) ^^ 3) (snd (ok_executor (world (new_engine (0::nat))))) = 4"
    by (simp add: failing_executor_def ok_executor_def new_engine_def numeral_3_eq_3)
  from blocked_critical_task_aborts_run[OF h1 h2 h3 h4 h5 h6 h7, of idle_spark "new_engine (0::nat)"]
  obtain summ st' rows e where
    1: "execute_pipeline 3 quiet_logger [''A'', ''B'', ''C''] idle_spark abc_tasks abc_executors
            (new_engine 0) = Raised (CriticalBlocked ''C'') st'"
    and 2: "run_tasks quiet_logger idle_spark abc_tasks abc_executors [''A'', ''B'', ''C'']
            (initial_summary [''A'', ''B'', ''C''])
            ((new_engine 0)\<lparr>execution_order :=
                 record_order 1 [''A'', ''B'', ''C''] (execution_order (new_engine (0::nat)))\<rparr>)
          = Abort (CriticalBlocked ''C'') summ st'"
    and 3: "summ = \<lparr>total_tasks = 3, successful_tasks = 1, failed_tasks = 2, skipped_tasks = 0,
                summary_results = [''A'' \<mapsto> Succeeded 1 rows, ''B'' \<mapsto> FailedAttempt 3 e],
                failed_tasks_list = [''B'', ''C'']\<rparr>"
    and 4: "task_results st' = (task_results (new_engine (0::nat)))
                 (''A'' \<mapsto> Succeeded 1 rows, ''B'' \<mapsto> FailedAttempt 3 e)"
    and 5: "(\<forall>ev w. snd (quiet_logger ev w) = w) \<longrightarrow>
          world st' = ((\<lambda>w. snd (failing_executor w)) ^^ 3) (snd (ok_executor (world (new_engine (0::nat)))))"
    by (elim exE conjE) (rule that)
  from 5 q w have 6: "world st' = 4" by simp
  from 4 have 7: "task_results st' ''C'' = None" by (simp add: new_engine_def)
  from 3 have 8: "successful_tasks summ = 1 \<and> failed_tasks summ = 2 \<and> skipped_tasks summ = 0
      \<and> failed_tasks_list summ = [''B'', ''C''] \<and> summary_results summ ''C'' = None" by simp
  from h1 h2 h3 h4 h5 h6 h7 1 2 6 7 8 show ?thesis by blast
qed

end
